theory Spec2Isabelle
  imports Main "HOL-Library.Word"
begin

unbundle bit_operations_syntax

section \<open>H.264 over TCP: framing parsers and access-unit assembler\<close>

text \<open>
  The development follows \<open>h264_tcp_source.cpp\<close>: the NAL classifiers, the start-code
  scanner, the \<open>emit_access_unit\<close> closure, the Annex-B and AVCC read loops of
  \<open>H264TcpSource::loop\<close>, and the \<open>start\<close>/\<open>stop\<close> life cycle. Bytes are 8-bit words,
  buffers are lists, \<open>std::size_t\<close> indices are naturals (no buffer here comes near
  \<open>2^64\<close> bytes). The timestamp of an access unit is a reading of the steady clock and
  is left out of the model.
\<close>

type_synonym byte = "8 word"

subsection \<open>Constants and NAL classification\<close>

definition kMaxNalSize :: nat where
  "kMaxNalSize = 4 * 1024 * 1024"

definition kReadChunkSize :: nat where
  "kReadChunkSize = 64 * 1024"

definition kStartCode :: "byte list" where
  "kStartCode = [0, 0, 0, 1]"

definition isVclNal :: "byte list \<Rightarrow> bool" where
  "isVclNal nal =
     (if length nal < 1 then False
      else (let type = (nal ! 0) AND 0x1f in type = 1 \<or> type = 5))"

definition isIdrNal :: "byte list \<Rightarrow> bool" where
  "isIdrNal nal =
     (if length nal < 1 then False
      else (nal ! 0) AND 0x1f = 5)"

subsection \<open>Start-code scanner\<close>

record StartCode =
  sc_offset :: nat
  sc_size :: nat

text \<open>
  The fields \<open>offset\<close> and \<open>size\<close> of \<open>struct StartCode\<close> are \<open>sc_offset\<close> and
  \<open>sc_size\<close> here. \<open>findStartCode buf start\<close> is the \<open>for\<close> loop of the source, the
  loop variable being the second argument; \<open>None\<close> is the \<open>return false\<close> after the
  loop, \<open>Some sc\<close> the \<open>return true\<close> with \<open>out = sc\<close>.
\<close>

function findStartCode :: "byte list \<Rightarrow> nat \<Rightarrow> StartCode option" where
  "findStartCode buf i =
     (if i + 3 < length buf then
        (if buf ! i = 0 \<and> buf ! (i + 1) = 0 then
           (if buf ! (i + 2) = 1 then Some \<lparr>sc_offset = i, sc_size = 3\<rparr>
            else if i + 4 < length buf \<and> buf ! (i + 2) = 0 \<and> buf ! (i + 3) = 1
              then Some \<lparr>sc_offset = i, sc_size = 4\<rparr>
            else findStartCode buf (i + 1))
         else findStartCode buf (i + 1))
      else None)"
  by pat_completeness auto
termination
  by (relation "measure (\<lambda>(buf, i). length buf - i)") auto

declare findStartCode.simps [simp del]

lemma findStartCode_bounds:
  "findStartCode buf i = Some sc \<Longrightarrow>
     i \<le> sc_offset sc \<and> sc_offset sc + 3 < length buf \<and> (sc_size sc = 3 \<or> sc_size sc = 4)"
proof (induction buf i rule: findStartCode.induct)
  case (1 buf i)
  show ?case
  proof (cases "i + 3 < length buf")
    case False
    with "1.prems" show ?thesis
      by (simp add: findStartCode.simps [of buf i])
  next
    case True
    show ?thesis
    proof (cases "findStartCode buf (i + 1) = Some sc")
      case True
      with "1.IH" \<open>i + 3 < length buf\<close> "1.prems" show ?thesis
        by (auto simp add: findStartCode.simps [of buf i] split: if_splits)
    next
      case False
      with "1.prems" \<open>i + 3 < length buf\<close> show ?thesis
        by (auto simp add: findStartCode.simps [of buf i] split: if_splits)
    qed
  qed
qed

subsection \<open>Access units and the assembler closure\<close>

record H264AccessUnit =
  data :: "byte list"
  is_keyframe :: bool

text \<open>
  The variables captured by the \<open>emit_access_unit\<close> closure: the pending buffer, the
  keyframe-seen flag, and the access units handed to \<open>callback_\<close> so far, oldest first.
\<close>

record assembler =
  access_unit :: "byte list"
  has_idr :: bool
  delivered :: "H264AccessUnit list"

definition assembler0 :: assembler where
  "assembler0 = \<lparr>access_unit = [], has_idr = False, delivered = []\<rparr>"

text \<open>
  \<open>emit_access_unit cb nal is_vcl a\<close>: \<open>cb\<close> tells whether \<open>callback_\<close> holds a
  function (the \<open>if (callback_)\<close> test of the source).
\<close>

definition emit_access_unit :: "bool \<Rightarrow> byte list \<Rightarrow> bool \<Rightarrow> assembler \<Rightarrow> assembler" where
  "emit_access_unit cb nal is_vcl a =
     (let buf = access_unit a @ kStartCode @ nal;
          idr = (if isIdrNal nal then True else has_idr a)
      in if \<not> is_vcl then a\<lparr>access_unit := buf, has_idr := idr\<rparr>
         else (let au = \<lparr>data = buf, is_keyframe = idr\<rparr>
               in \<lparr>access_unit = [], has_idr = False,
                   delivered = (if cb then delivered a @ [au] else delivered a)\<rparr>))"

subsection \<open>The Annex-B scan of the accumulated buffer\<close>

text \<open>
  The inner \<open>while (findStartCode(stream_buf, parse_pos, sc))\<close> loop. The closure is a
  parameter \<open>emit\<close>, applied to the NAL bytes, the \<open>is_vcl\<close> flag and the captured
  state; the result is the buffer, the parse position and the captured state when the
  loop is left.
\<close>

function annexb_parse ::
  "(byte list \<Rightarrow> bool \<Rightarrow> 'a \<Rightarrow> 'a) \<Rightarrow> byte list \<Rightarrow> nat \<Rightarrow> 'a \<Rightarrow> byte list \<times> nat \<times> 'a" where
  "annexb_parse emit stream_buf parse_pos a =
     (case findStartCode stream_buf parse_pos of
        None \<Rightarrow> (stream_buf, parse_pos, a)
      | Some sc \<Rightarrow>
          if parse_pos = 0 \<and> sc_offset sc > 0
          then annexb_parse emit (drop (sc_offset sc) stream_buf) 0 a
          else (let next_start = sc_offset sc + sc_size sc in
                case findStartCode stream_buf next_start of
                  None \<Rightarrow> (stream_buf, parse_pos, a)
                | Some next_sc \<Rightarrow>
                    (let nal_start = sc_offset sc + sc_size sc;
                         nal_size = sc_offset next_sc - nal_start;
                         a' = (if nal_size > 0
                               then (let nal_data = take nal_size (drop nal_start stream_buf)
                                     in emit nal_data (isVclNal nal_data) a)
                               else a)
                     in annexb_parse emit stream_buf (sc_offset next_sc) a')))"
  by pat_completeness auto
termination
proof (relation "measure (\<lambda>(emit, buf, pos, a). 2 * length buf - pos)", goal_cases)
  case 1
  show ?case by simp
next
  case (2 emit buf pos a sc)
  then show ?case
    using findStartCode_bounds [of buf pos sc] by auto
next
  case (3 emit buf pos a sc next_start next_sc nal_start nal_size a')
  then show ?case
    using findStartCode_bounds [of buf pos sc]
      findStartCode_bounds [of buf "sc_offset sc + sc_size sc" next_sc]
    by auto
qed

declare annexb_parse.simps [simp del]

subsection \<open>The socket\<close>

text \<open>
  What the peer and the network do is a script: the segments that successive calls of
  \<open>recv\<close> will find, in order. \<open>Data c\<close> is a run of bytes that has arrived, \<open>Err\<close> makes
  one call return a negative value, and the end of the script is the orderly shutdown of
  the peer (\<open>recv\<close> returns 0). \<open>recv len fd\<close> returns at most \<open>len\<close> bytes and leaves the
  rest of a longer segment for the next call. The result \<open>None\<close> stands for \<open>n < 0\<close>,
  \<open>Some c\<close> for \<open>n = length c\<close>.
\<close>

datatype segment = Data "byte list" | Err

type_synonym socket = "segment list"

fun recv :: "nat \<Rightarrow> socket \<Rightarrow> byte list option \<times> socket" where
  "recv len [] = (Some [], [])"
| "recv len (Err # rest) = (None, rest)"
| "recv len (Data c # rest) =
     (if length c \<le> len then (Some c, rest)
      else (Some (take len c), Data (drop len c) # rest))"

fun segment_size :: "segment \<Rightarrow> nat" where
  "segment_size (Data c) = Suc (length c)"
| "segment_size Err = 1"

definition socket_size :: "socket \<Rightarrow> nat" where
  "socket_size fd = sum_list (map segment_size fd)"

lemma recv_socket_size:
  "recv len fd = (r, fd') \<Longrightarrow> socket_size fd' \<le> socket_size fd"
  by (cases "(len, fd)" rule: recv.cases) (auto simp: socket_size_def split: if_splits)

lemma recv_socket_size_less:
  "recv len fd = (Some c, fd') \<Longrightarrow> c \<noteq> [] \<Longrightarrow> socket_size fd' + length c \<le> socket_size fd"
  by (cases "(len, fd)" rule: recv.cases) (auto simp: socket_size_def split: if_splits)

subsection \<open>The Annex-B read loop\<close>

text \<open>
  \<open>annexb_chunk\<close> is the body of the outer loop after a successful \<open>recv\<close>: append the
  chunk, scan from position 0, erase the consumed front of the buffer.
\<close>

definition annexb_chunk ::
  "(byte list \<Rightarrow> bool \<Rightarrow> 'a \<Rightarrow> 'a) \<Rightarrow> byte list \<Rightarrow> byte list \<times> 'a \<Rightarrow> byte list \<times> 'a" where
  "annexb_chunk emit chunk s =
     (case s of (stream_buf, a) \<Rightarrow>
        (case annexb_parse emit (stream_buf @ chunk) 0 a of
           (stream_buf', parse_pos, a') \<Rightarrow>
             (if parse_pos > 0 then drop parse_pos stream_buf' else stream_buf', a')))"

text \<open>
  \<open>annexb_loop emit fd running (stream_buf, a)\<close> is \<open>while (running_.load())\<close> of the
  Annex-B branch; it returns the flag, the buffer and the captured state at the exit.
\<close>

function annexb_loop ::
  "(byte list \<Rightarrow> bool \<Rightarrow> 'a \<Rightarrow> 'a) \<Rightarrow> socket \<Rightarrow> bool \<Rightarrow> byte list \<times> 'a \<Rightarrow> bool \<times> byte list \<times> 'a" where
  "annexb_loop emit fd running s =
     (if running then
        (case recv kReadChunkSize fd of
           (None, fd') \<Rightarrow> (False, s)
         | (Some chunk, fd') \<Rightarrow>
             if length chunk \<le> 0 then (False, s)
             else annexb_loop emit fd' running (annexb_chunk emit chunk s))
      else (running, s))"
  by pat_completeness auto
termination
proof (relation "measure (\<lambda>(emit, fd, running, s). socket_size fd)", goal_cases)
  case 1
  show ?case by simp
next
  case (2 emit fd running s r fd' chunk)
  then show ?case
    using recv_socket_size_less [of kReadChunkSize fd chunk fd'] by (cases chunk) auto
qed

declare annexb_loop.simps [simp del]

subsection \<open>The AVCC read loop\<close>

text \<open>
  \<open>recv_fill want fd running filled\<close> is the inner loop
  \<open>while (filled < want && running_.load())\<close>, used once for the 4-byte length and once
  for the payload; \<open>filled\<close> holds the bytes stored so far.
\<close>

function recv_fill :: "nat \<Rightarrow> socket \<Rightarrow> bool \<Rightarrow> byte list \<Rightarrow> socket \<times> bool \<times> byte list" where
  "recv_fill want fd running filled =
     (if length filled < want \<and> running then
        (case recv (want - length filled) fd of
           (None, fd') \<Rightarrow> (fd', False, filled)
         | (Some c, fd') \<Rightarrow>
             if length c \<le> 0 then (fd', False, filled)
             else recv_fill want fd' running (filled @ c))
      else (fd, running, filled))"
  by pat_completeness auto
termination
  by (relation "measure (\<lambda>(want, fd, running, filled). want - length filled)")
    (auto simp: neq_Nil_conv)

declare recv_fill.simps [simp del]

lemma recv_fill_unfold:
  "length filled < want \<Longrightarrow>
   recv_fill want fd True filled =
     (case recv (want - length filled) fd of
        (None, fd') \<Rightarrow> (fd', False, filled)
      | (Some c, fd') \<Rightarrow>
          if c = [] then (fd', False, filled) else recv_fill want fd' True (filled @ c))"
  by (subst recv_fill.simps) (simp split: prod.splits option.splits)

lemma recv_fill_done:
  "\<not> (length filled < want \<and> running) \<Longrightarrow>
   recv_fill want fd running filled = (fd, running, filled)"
  by (subst recv_fill.simps) auto

lemma recv_fill_socket_size:
  "recv_fill want fd running filled = (fd', running', filled') \<Longrightarrow>
     socket_size fd' + length filled' \<le> socket_size fd + length filled"
proof (induction want fd running filled rule: recv_fill.induct)
  case (1 want fd running filled)
  show ?case
  proof (cases "length filled < want \<and> running")
    case False
    with "1.prems" show ?thesis
      by (simp add: recv_fill_done)
  next
    case True
    then have lt: "length filled < want" and run: "running = True"
      by simp_all
    obtain r fd1 where r: "recv (want - length filled) fd = (r, fd1)"
      by (cases "recv (want - length filled) fd")
    note unf = recv_fill_unfold [OF lt, of fd]
    show ?thesis
    proof (cases r)
      case None
      with r "1.prems" recv_socket_size [OF r] show ?thesis
        by (simp add: unf run)
    next
      case (Some c)
      show ?thesis
      proof (cases "c = []")
        case True
        with r Some "1.prems" recv_socket_size [OF r]
        show ?thesis
          by (simp add: unf run)
      next
        case False
        with r Some "1.prems"
        have "recv_fill want fd1 running (filled @ c) = (fd', running', filled')"
          by (simp add: unf run)
        with "1.IH" [OF \<open>length filled < want \<and> running\<close> r [symmetric] Some] False
        have "socket_size fd' + length filled' \<le> socket_size fd1 + length (filled @ c)"
          by simp
        with recv_socket_size_less [of "want - length filled" fd c fd1] r Some False
        show ?thesis by simp
      qed
    qed
  qed
qed

definition be32 :: "byte list \<Rightarrow> 32 word" where
  "be32 lenBuf =
     push_bit 24 (ucast (lenBuf ! 0)) OR push_bit 16 (ucast (lenBuf ! 1)) OR
     push_bit 8 (ucast (lenBuf ! 2)) OR ucast (lenBuf ! 3)"

function avcc_loop ::
  "(byte list \<Rightarrow> bool \<Rightarrow> 'a \<Rightarrow> 'a) \<Rightarrow> socket \<Rightarrow> bool \<Rightarrow> 'a \<Rightarrow> bool \<times> 'a" where
  "avcc_loop emit fd running a =
     (if running then
        (case recv_fill 4 fd running [] of
           (fd1, running1, lenBuf) \<Rightarrow>
             if \<not> running1 \<or> length lenBuf < 4 then (running1, a)
             else (let nalLen = be32 lenBuf in
                   if nalLen = 0 \<or> unat nalLen > kMaxNalSize then (False, a)
                   else (case recv_fill (unat nalLen) fd1 running1 [] of
                           (fd2, running2, nal) \<Rightarrow>
                             if \<not> running2 \<or> length nal < unat nalLen then (running2, a)
                             else avcc_loop emit fd2 running2 (emit nal (isVclNal nal) a))))
      else (running, a))"
  by pat_completeness auto
termination
proof (relation "measure (\<lambda>(emit, fd, running, a). socket_size fd)", goal_cases)
  case 1
  show ?case by simp
next
  case (2 emit fd running a x y xa ya xb xc yb xd yc)
  from 2 have h: "recv_fill 4 fd running [] = (x, xa, ya)"
    and n: "recv_fill (unat (be32 ya)) x xa [] = (xc, xd, yc)"
    and l: "\<not> length ya < 4"
    by auto
  from recv_fill_socket_size [OF h] recv_fill_socket_size [OF n] l
  show ?case by simp
qed

declare avcc_loop.simps [simp del]

subsection \<open>The worker: \<open>H264TcpSource::loop\<close>\<close>

datatype H264Framing = Avcc | AnnexB

text \<open>
  \<open>loop cb framing fd running\<close>: \<open>fd\<close> is what \<open>connectTcp\<close> returned (\<open>None\<close> for
  \<open>INVALID_SOCKET_VALUE\<close>), \<open>running\<close> the value of \<open>running_\<close> when the worker begins.
  The result is the value the worker leaves in \<open>running_\<close> and the access units it
  handed to the callback; the pending buffer is a local variable and ends with the call.
  The worker is modelled on its own: no \<open>stop()\<close> of the controller is interleaved, so
  \<open>running_\<close> changes only where the worker stores to it.
\<close>

definition loop :: "bool \<Rightarrow> H264Framing \<Rightarrow> socket option \<Rightarrow> bool \<Rightarrow> bool \<times> H264AccessUnit list" where
  "loop cb framing fd running =
     (case fd of
        None \<Rightarrow> (False, [])
      | Some sock \<Rightarrow>
          (if framing = AnnexB then
             (case annexb_loop (emit_access_unit cb) sock running ([], assembler0) of
                (running', stream_buf, a) \<Rightarrow> (False, delivered a))
           else
             (case avcc_loop (emit_access_unit cb) sock running assembler0 of
                (running', a) \<Rightarrow> (False, delivered a))))"

subsection \<open>The controller: \<open>start\<close> and \<open>stop\<close>\<close>

text \<open>
  The object as the controller sees it: the flag \<open>running_\<close> (field \<open>m_running\<close>) and
  the \<open>std::thread\<close> member \<open>thread_\<close> (field \<open>m_thread\<close>), which is not joinable
  (\<open>NotAThread\<close>), or owns a worker that is executing \<open>loop\<close>, or owns one that has
  returned and was not joined yet. \<open>spawned\<close> counts the threads created, \<open>workers\<close>
  those that have not returned. In \<open>start\<close> the new thread is constructed first and then
  move-assigned to \<open>thread_\<close>; move-assigning to a joinable \<open>std::thread\<close> calls
  \<open>std::terminate\<close>, and \<open>terminated\<close> records that this has happened.

  The worker acts on the object in two separate steps. \<open>worker_clear\<close> is one of its
  \<open>running_.store(false)\<close>: the flag is false and the worker is still alive.
  \<open>worker_return\<close> is the return of \<open>loop\<close>, which ends the thread; every path of
  \<open>loop\<close> stores \<open>false\<close> before it returns, so the step is possible only when the flag
  is false. The controller may act between the two. \<open>join\<close> in \<open>stop\<close> comes back
  once the worker, which then finds the flag false, has returned.
\<close>

datatype thread_state = NotAThread | Executing | Returned

record H264TcpSource =
  m_running :: bool
  m_thread :: thread_state
  spawned :: nat
  workers :: nat
  terminated :: bool

definition new_source :: H264TcpSource where
  "new_source = \<lparr>m_running = False, m_thread = NotAThread, spawned = 0, workers = 0,
     terminated = False\<rparr>"

definition running :: "H264TcpSource \<Rightarrow> bool" where
  "running s = m_running s"

definition start :: "H264TcpSource \<Rightarrow> H264TcpSource" where
  "start s =
     (if terminated s then s
      else if m_running s then s
      else (let s1 = s\<lparr>m_running := True, spawned := spawned s + 1, workers := workers s + 1\<rparr>
            in if m_thread s \<noteq> NotAThread then s1\<lparr>terminated := True\<rparr>
               else s1\<lparr>m_thread := Executing\<rparr>))"

definition worker_clear :: "H264TcpSource \<Rightarrow> H264TcpSource" where
  "worker_clear s =
     (if terminated s \<or> m_thread s \<noteq> Executing then s
      else s\<lparr>m_running := False\<rparr>)"

definition worker_return :: "H264TcpSource \<Rightarrow> H264TcpSource" where
  "worker_return s =
     (if terminated s \<or> m_thread s \<noteq> Executing \<or> m_running s then s
      else s\<lparr>m_thread := Returned, workers := workers s - 1\<rparr>)"

definition stop :: "H264TcpSource \<Rightarrow> H264TcpSource" where
  "stop s =
     (if terminated s then s
      else (let s1 = s\<lparr>m_running := False\<rparr>
            in if m_thread s1 \<noteq> NotAThread
               then (worker_return s1)\<lparr>m_thread := NotAThread\<rparr>
               else s1))"

datatype event = Start | Stop | WorkerClear | WorkerReturn

fun step :: "H264TcpSource \<Rightarrow> event \<Rightarrow> H264TcpSource" where
  "step s Start = start s"
| "step s Stop = stop s"
| "step s WorkerClear = worker_clear s"
| "step s WorkerReturn = worker_return s"

definition run :: "event list \<Rightarrow> H264TcpSource \<Rightarrow> H264TcpSource" where
  "run es s = foldl step s es"

section \<open>Vocabulary of the statements\<close>

text \<open>
  The definitions of this section are not code of the program: they are what the
  statements below compare the program with.
\<close>

subsection \<open>What a socket script delivers\<close>

text \<open>
  \<open>sock_bytes fd\<close> is the byte stream the worker can read from the script \<open>fd\<close>: the
  bytes of its segments up to the first read that fails (an \<open>Err\<close>, a read of 0 bytes,
  or the end of the script).
\<close>

fun sock_bytes :: "socket \<Rightarrow> byte list" where
  "sock_bytes [] = []"
| "sock_bytes (Err # rest) = []"
| "sock_bytes (Data c # rest) = (if c = [] then [] else c @ sock_bytes rest)"

text \<open>
  \<open>feed_nals emit nals a\<close> calls the closure on each NAL unit of a list in turn, with
  the flag the two loops pass. \<open>collect\<close> is a closure that only records the NAL units
  it is given; \<open>annexb_nals bytes\<close> is the list it records when the Annex-B scan runs
  over \<open>bytes\<close> received as a single chunk.
\<close>

definition feed_nals :: "(byte list \<Rightarrow> bool \<Rightarrow> 'a \<Rightarrow> 'a) \<Rightarrow> byte list list \<Rightarrow> 'a \<Rightarrow> 'a" where
  "feed_nals emit nals a = fold (\<lambda>nal. emit nal (isVclNal nal)) nals a"

definition collect :: "byte list \<Rightarrow> bool \<Rightarrow> byte list list \<Rightarrow> byte list list" where
  "collect nal is_vcl log = log @ [nal]"

definition annexb_nals :: "byte list \<Rightarrow> byte list list" where
  "annexb_nals bytes = (case annexb_parse collect bytes 0 [] of (buf, pos, nals) \<Rightarrow> nals)"

subsection \<open>The framings and the access units in the words of the specification\<close>

text \<open>
  \<open>spec_avcc_nals\<close> follows section 4.2 of the specification: a sequence of records,
  each a 4-byte big-endian length \<open>L\<close> with \<open>0 < L \<le> 4 MiB\<close> and then \<open>L\<close> bytes of
  payload; decoding stops at the first record that is not complete or whose length is
  not valid.
\<close>

function spec_avcc_nals :: "byte list \<Rightarrow> byte list list" where
  "spec_avcc_nals bs =
     (if length bs < 4 then []
      else (let len = unat (be32 (take 4 bs)) in
            if len = 0 \<or> kMaxNalSize < len then []
            else if length bs - 4 < len then []
            else take len (drop 4 bs) # spec_avcc_nals (drop (4 + len) bs)))"
  by pat_completeness auto
termination
  by (relation "measure length") auto

declare spec_avcc_nals.simps [simp del]

text \<open>
  Sections 3 and 4.4 of the specification: the type of a NAL unit is its first byte
  \<open>AND 0x1F\<close>; it is VCL when the type is 1 or 5, IDR when it is 5. An access unit is
  the concatenation of its NAL units, each after the start code \<open>00 00 00 01\<close>
  (\<open>spec_frame\<close>). \<open>spec_groups acc nals\<close> closes a group after every VCL unit of
  \<open>nals\<close>, \<open>acc\<close> being the units already pending; \<open>spec_pending\<close> is what remains
  open at the end. \<open>spec_au\<close> is the access unit of a group. \<open>loop_nals framing fd\<close> is
  the list of NAL units of the stream that the script \<open>fd\<close> delivers.
\<close>

definition nal_type :: "byte list \<Rightarrow> byte" where
  "nal_type nal = (nal ! 0) AND 0x1f"

definition spec_is_vcl :: "byte list \<Rightarrow> bool" where
  "spec_is_vcl nal \<longleftrightarrow> nal_type nal = 1 \<or> nal_type nal = 5"

definition spec_is_idr :: "byte list \<Rightarrow> bool" where
  "spec_is_idr nal \<longleftrightarrow> nal_type nal = 5"

definition spec_frame :: "byte list list \<Rightarrow> byte list" where
  "spec_frame nals = concat (map (\<lambda>nal. kStartCode @ nal) nals)"

fun spec_groups :: "byte list list \<Rightarrow> byte list list \<Rightarrow> byte list list list" where
  "spec_groups acc [] = []"
| "spec_groups acc (nal # nals) =
     (if spec_is_vcl nal then (acc @ [nal]) # spec_groups [] nals
      else spec_groups (acc @ [nal]) nals)"

fun spec_pending :: "byte list list \<Rightarrow> byte list list \<Rightarrow> byte list list" where
  "spec_pending acc [] = acc"
| "spec_pending acc (nal # nals) =
     (if spec_is_vcl nal then spec_pending [] nals else spec_pending (acc @ [nal]) nals)"

definition spec_au :: "byte list list \<Rightarrow> H264AccessUnit" where
  "spec_au g = \<lparr>data = spec_frame g, is_keyframe = list_ex spec_is_idr g\<rparr>"

definition loop_nals :: "H264Framing \<Rightarrow> socket \<Rightarrow> byte list list" where
  "loop_nals framing fd =
     (if framing = AnnexB then annexb_nals (sock_bytes fd) else spec_avcc_nals (sock_bytes fd))"

text \<open>
  A NAL unit as it stands in a byte stream: not empty, not ending in a zero byte, and
  with no \<open>00 00 00\<close> or \<open>00 00 01\<close> inside.
\<close>

fun no_start_code :: "byte list \<Rightarrow> bool" where
  "no_start_code (a # b # c # rest) =
     (\<not> (a = 0 \<and> b = 0 \<and> (c = 0 \<or> c = 1)) \<and> no_start_code (b # c # rest))"
| "no_start_code rest = True"

definition clean_nal :: "byte list \<Rightarrow> bool" where
  "clean_nal p \<longleftrightarrow> p \<noteq> [] \<and> last p \<noteq> 0 \<and> no_start_code p"

subsection \<open>An invariant of the life cycle\<close>


subsection \<open>Auxiliary notions of the proofs\<close>

text \<open>
  \<open>shift_sc\<close> moves a start code to the left when the front of the buffer is erased;
  \<open>nal_between\<close> and \<open>nal_step\<close> are the NAL unit between two start codes and the
  closure call of one iteration of the scan; \<open>at_sc buf pos\<close> says that a parse position
  other than 0 is the offset of a start code.
\<close>

definition shift_sc :: "nat \<Rightarrow> StartCode \<Rightarrow> StartCode" where
  "shift_sc k sc = sc\<lparr>sc_offset := sc_offset sc - k\<rparr>"

definition nal_between :: "byte list \<Rightarrow> StartCode \<Rightarrow> StartCode \<Rightarrow> byte list" where
  "nal_between buf sc next_sc =
     take (sc_offset next_sc - (sc_offset sc + sc_size sc)) (drop (sc_offset sc + sc_size sc) buf)"

definition nal_step ::
  "(byte list \<Rightarrow> bool \<Rightarrow> 'a \<Rightarrow> 'a) \<Rightarrow> byte list \<Rightarrow> StartCode \<Rightarrow> StartCode \<Rightarrow> 'a \<Rightarrow> 'a" where
  "nal_step emit buf sc next_sc a =
     (if sc_offset next_sc - (sc_offset sc + sc_size sc) > 0
      then emit (nal_between buf sc next_sc) (isVclNal (nal_between buf sc next_sc)) a
      else a)"

definition at_sc :: "byte list \<Rightarrow> nat \<Rightarrow> bool" where
  "at_sc buf pos \<longleftrightarrow> pos = 0 \<or> (\<exists>sc. findStartCode buf pos = Some sc \<and> sc_offset sc = pos)"

subsection \<open>A script for the examples\<close>

text \<open>
  An AVCC stream in three segments that cut the records: an SPS (type 7), an IDR slice
  (type 5), a non-IDR slice (type 1) and a PPS (type 8) that stays pending.
\<close>

definition avcc_example :: socket where
  "avcc_example =
     [Data [0, 0, 0, 2, 0x67], Data [0x42, 0, 0, 0, 2, 0x65, 0x88],
      Data [0, 0, 0, 1, 0x41, 0, 0, 0, 1, 0x68]]"

section \<open>Properties of the scanner, the loops and the assembler\<close>

subsection \<open>The start-code scanner\<close>

lemma findStartCode_None: "\<not> i + 3 < length buf \<Longrightarrow> findStartCode buf i = None"
  by (simp add: findStartCode.simps [of buf i])

lemma findStartCode_append:
  "findStartCode buf i = Some sc \<Longrightarrow> findStartCode (buf @ x) i = Some sc"
proof (induction buf i rule: findStartCode.induct)
  case (1 buf i)
  show ?case
  proof (cases "i + 3 < length buf")
    case False
    with "1.prems" show ?thesis
      by (simp add: findStartCode_None)
  next
    case True
    then have nth: "(buf @ x) ! i = buf ! i" "(buf @ x) ! (i + 1) = buf ! (i + 1)"
      "(buf @ x) ! (i + 2) = buf ! (i + 2)" "(buf @ x) ! (i + 3) = buf ! (i + 3)"
      by (simp_all add: nth_append)
    show ?thesis
    proof (cases "findStartCode buf (i + 1) = Some sc")
      case rec: True
      from findStartCode_bounds [OF rec] have "i + 4 < length buf" by simp
      with "1.IH" True rec "1.prems" nth show ?thesis
        by (auto simp add: findStartCode.simps [of buf i] findStartCode.simps [of "buf @ x" i]
            split: if_splits)
    next
      case False
      with "1.prems" True nth show ?thesis
        by (auto simp add: findStartCode.simps [of buf i] findStartCode.simps [of "buf @ x" i]
            split: if_splits)
    qed
  qed
qed

lemma findStartCode_at_offset:
  "findStartCode buf i = Some sc \<Longrightarrow> findStartCode buf (sc_offset sc) = Some sc"
proof (induction buf i rule: findStartCode.induct)
  case (1 buf i)
  show ?case
  proof (cases "i + 3 < length buf")
    case False
    with "1.prems" show ?thesis
      by (simp add: findStartCode_None)
  next
    case True
    show ?thesis
    proof (cases "findStartCode buf (i + 1) = Some sc")
      case rec: True
      with "1.IH" True "1.prems" show ?thesis
        by (auto simp add: findStartCode.simps [of buf i] split: if_splits)
    next
      case False
      with "1.prems" True show ?thesis
        by (auto simp add: findStartCode.simps [of buf i] split: if_splits)
    qed
  qed
qed

lemma findStartCode_drop:
  "findStartCode (drop k buf) i = map_option (shift_sc k) (findStartCode buf (i + k))"
proof (induction "drop k buf" i rule: findStartCode.induct)
  case (1 i)
  show ?case
  proof (cases "i + 3 < length (drop k buf)")
    case False
    then show ?thesis
      by (simp add: findStartCode_None)
  next
    case True
    then have len: "i + k + 3 < length buf" by simp
    then have nth: "drop k buf ! i = buf ! (i + k)" "drop k buf ! (i + 1) = buf ! (i + k + 1)"
      "drop k buf ! (i + 2) = buf ! (i + k + 2)" "drop k buf ! (i + 3) = buf ! (i + k + 3)"
      by (simp_all add: algebra_simps)
    have l4: "i + 4 < length (drop k buf) \<longleftrightarrow> i + k + 4 < length buf" by auto
    from "1.hyps" True nth len l4 show ?thesis
      by (simp add: findStartCode.simps [of "drop k buf" i] findStartCode.simps [of buf "i + k"]
          shift_sc_def)
  qed
qed

subsection \<open>One iteration of the Annex-B scan\<close>

lemma annexb_parse_None:
  "findStartCode buf pos = None \<Longrightarrow> annexb_parse emit buf pos a = (buf, pos, a)"
  by (simp add: annexb_parse.simps [of emit buf pos a])

lemma annexb_parse_skip:
  "findStartCode buf 0 = Some sc \<Longrightarrow> sc_offset sc > 0 \<Longrightarrow>
   annexb_parse emit buf 0 a = annexb_parse emit (drop (sc_offset sc) buf) 0 a"
  by (simp add: annexb_parse.simps [of emit buf 0 a])

lemma annexb_parse_wait:
  "findStartCode buf pos = Some sc \<Longrightarrow> \<not> (pos = 0 \<and> sc_offset sc > 0) \<Longrightarrow>
   findStartCode buf (sc_offset sc + sc_size sc) = None \<Longrightarrow>
   annexb_parse emit buf pos a = (buf, pos, a)"
  by (auto simp add: annexb_parse.simps [of emit buf pos a])

lemma annexb_parse_nal:
  "findStartCode buf pos = Some sc \<Longrightarrow> \<not> (pos = 0 \<and> sc_offset sc > 0) \<Longrightarrow>
   findStartCode buf (sc_offset sc + sc_size sc) = Some next_sc \<Longrightarrow>
   annexb_parse emit buf pos a =
     annexb_parse emit buf (sc_offset next_sc) (nal_step emit buf sc next_sc a)"
  by (auto simp add: annexb_parse.simps [of emit buf pos a] nal_step_def nal_between_def Let_def)

text \<open>An induction rule that follows the four ways through one iteration.\<close>

lemma annexb_parse_cases_induct [case_names None Skip Wait Nal]:
  assumes "\<And>buf pos a. findStartCode buf pos = None \<Longrightarrow> P buf pos a"
    and "\<And>buf a sc. findStartCode buf 0 = Some sc \<Longrightarrow> sc_offset sc > 0 \<Longrightarrow>
           P (drop (sc_offset sc) buf) 0 a \<Longrightarrow> P buf 0 a"
    and "\<And>buf pos a sc. findStartCode buf pos = Some sc \<Longrightarrow> \<not> (pos = 0 \<and> sc_offset sc > 0) \<Longrightarrow>
           findStartCode buf (sc_offset sc + sc_size sc) = None \<Longrightarrow> P buf pos a"
    and "\<And>buf pos a sc next_sc. findStartCode buf pos = Some sc \<Longrightarrow>
           \<not> (pos = 0 \<and> sc_offset sc > 0) \<Longrightarrow>
           findStartCode buf (sc_offset sc + sc_size sc) = Some next_sc \<Longrightarrow>
           P buf (sc_offset next_sc) (nal_step emit buf sc next_sc a) \<Longrightarrow> P buf pos a"
  shows "P buf pos (a :: 'a)"
proof -
  have "e = emit \<Longrightarrow> P buf pos a" for e
  proof (induction e buf pos a rule: annexb_parse.induct)
    case (1 e buf pos a)
    note e = \<open>e = emit\<close>
    show ?case
    proof (cases "findStartCode buf pos")
      case None
      then show ?thesis by (rule assms(1))
    next
      case (Some sc)
      show ?thesis
      proof (cases "pos = 0 \<and> sc_offset sc > 0")
        case True
        with Some "1.IH"(1) [OF Some True e] assms(2) [of buf sc a] show ?thesis
          by simp
      next
        case False
        show ?thesis
        proof (cases "findStartCode buf (sc_offset sc + sc_size sc)")
          case None
          with Some False show ?thesis by (rule assms(3))
        next
          case next_sc: (Some next_sc)
          have "P buf (sc_offset next_sc) (nal_step emit buf sc next_sc a)"
            using "1.IH"(2) [OF Some False refl next_sc refl refl refl e]
            by (simp only: nal_step_def nal_between_def Let_def e)
          with Some False next_sc show ?thesis by (rule assms(4))
        qed
      qed
    qed
  qed
  then show ?thesis by simp
qed

subsection \<open>The scan goes on where it stopped\<close>

lemma nal_between_append:
  "findStartCode buf i = Some next_sc \<Longrightarrow> nal_between (buf @ x) sc next_sc = nal_between buf sc next_sc"
proof -
  assume "findStartCode buf i = Some next_sc"
  from findStartCode_bounds [OF this] have le: "sc_offset next_sc \<le> length buf" by simp
  show ?thesis
  proof (cases "sc_offset sc + sc_size sc \<le> sc_offset next_sc")
    case True
    with le show ?thesis by (simp add: nal_between_def)
  next
    case False
    then show ?thesis by (simp add: nal_between_def)
  qed
qed

lemma nal_step_append:
  "findStartCode buf i = Some next_sc \<Longrightarrow> nal_step emit (buf @ x) sc next_sc a = nal_step emit buf sc next_sc a"
  by (simp add: nal_step_def nal_between_append)

lemma annexb_parse_resume:
  "annexb_parse emit (buf @ x) pos a =
     (case annexb_parse emit buf pos a of (buf', pos', a') \<Rightarrow> annexb_parse emit (buf' @ x) pos' a')"
proof (induction buf pos a rule: annexb_parse_cases_induct [where emit = emit])
  case (None buf pos a)
  then show ?case by (simp add: annexb_parse_None)
next
  case (Skip buf a sc)
  from findStartCode_bounds [OF Skip(1)] have "sc_offset sc \<le> length buf" by simp
  with Skip findStartCode_append [OF Skip(1), of x] show ?case
    by (simp add: annexb_parse_skip)
next
  case (Wait buf pos a sc)
  then show ?case by (simp add: annexb_parse_wait)
next
  case (Nal buf pos a sc next_sc)
  from Nal(1-3) have "annexb_parse emit (buf @ x) pos a =
      annexb_parse emit (buf @ x) (sc_offset next_sc) (nal_step emit (buf @ x) sc next_sc a)"
    by (intro annexb_parse_nal findStartCode_append) auto
  with Nal show ?case
    by (simp add: annexb_parse_nal nal_step_append)
qed

lemma annexb_parse_at_sc:
  "at_sc buf pos \<Longrightarrow> annexb_parse emit buf pos a = (buf', pos', a') \<Longrightarrow> at_sc buf' pos'"
proof (induction buf pos a rule: annexb_parse_cases_induct [where emit = emit])
  case (None buf pos a)
  then show ?case by (simp add: annexb_parse_None)
next
  case (Skip buf a sc)
  then show ?case by (simp add: annexb_parse_skip at_sc_def)
next
  case (Wait buf pos a sc)
  then show ?case by (simp add: annexb_parse_wait)
next
  case (Nal buf pos a sc next_sc)
  from findStartCode_at_offset [OF Nal(3)] have "at_sc buf (sc_offset next_sc)"
    by (auto simp: at_sc_def)
  with Nal show ?case by (simp add: annexb_parse_nal)
qed

lemma findStartCode_drop_sub:
  "k \<le> i \<Longrightarrow> findStartCode (drop k buf) (i - k) = map_option (shift_sc k) (findStartCode buf i)"
  by (simp add: findStartCode_drop)

lemma nal_step_drop:
  "k \<le> sc_offset sc \<Longrightarrow>
   nal_step emit (drop k buf) (shift_sc k sc) (shift_sc k next_sc) a = nal_step emit buf sc next_sc a"
proof -
  assume "k \<le> sc_offset sc"
  then obtain d where d: "sc_offset sc = k + d"
    using le_Suc_ex by blast
  show ?thesis
    by (simp add: nal_step_def nal_between_def shift_sc_def d ac_simps)
qed

lemma annexb_parse_keeps_buf:
  "0 < pos \<Longrightarrow> annexb_parse emit buf pos a = (buf', pos', a') \<Longrightarrow> buf' = buf \<and> pos \<le> pos'"
proof (induction buf pos a rule: annexb_parse_cases_induct [where emit = emit])
  case (None buf pos a)
  then show ?case by (simp add: annexb_parse_None)
next
  case (Skip buf a sc)
  then show ?case by simp
next
  case (Wait buf pos a sc)
  then show ?case by (simp add: annexb_parse_wait)
next
  case (Nal buf pos a sc next_sc)
  from findStartCode_bounds [OF Nal(1)] findStartCode_bounds [OF Nal(3)]
  have "pos < sc_offset next_sc" by auto
  with Nal show ?case by (simp add: annexb_parse_nal)
qed

lemma annexb_parse_shift:
  "k < q \<Longrightarrow>
   annexb_parse emit (drop k buf) (q - k) a =
     (case annexb_parse emit buf q a of (b, p, a') \<Rightarrow> (drop k b, p - k, a'))"
proof (induction buf q a rule: annexb_parse_cases_induct [where emit = emit])
  case (None buf pos a)
  then show ?case
    by (simp add: annexb_parse_None findStartCode_drop_sub)
next
  case (Skip buf a sc)
  then show ?case by simp
next
  case (Wait buf pos a sc)
  from findStartCode_bounds [OF Wait(1)] Wait(4) have k: "k \<le> sc_offset sc" by simp
  have 1: "findStartCode (drop k buf) (pos - k) = Some (shift_sc k sc)"
    using Wait by (simp add: findStartCode_drop_sub)
  have 2: "findStartCode (drop k buf) (sc_offset (shift_sc k sc) + sc_size (shift_sc k sc)) = None"
    using Wait(3) k findStartCode_drop_sub [of k "sc_offset sc + sc_size sc" buf]
    by (simp add: shift_sc_def)
  from Wait show ?case
    by (simp add: annexb_parse_wait [OF Wait(1-3)] annexb_parse_wait [OF 1 _ 2])
next
  case (Nal buf pos a sc next_sc)
  from findStartCode_bounds [OF Nal(1)] Nal(5) have k: "k \<le> sc_offset sc" by simp
  from findStartCode_bounds [OF Nal(1)] findStartCode_bounds [OF Nal(3)] Nal(5)
  have kn: "k < sc_offset next_sc" by auto
  have 1: "findStartCode (drop k buf) (pos - k) = Some (shift_sc k sc)"
    using Nal by (simp add: findStartCode_drop_sub)
  have 2: "findStartCode (drop k buf) (sc_offset (shift_sc k sc) + sc_size (shift_sc k sc)) =
      Some (shift_sc k next_sc)"
    using Nal(3) k findStartCode_drop_sub [of k "sc_offset sc + sc_size sc" buf]
    by (simp add: shift_sc_def)
  have "annexb_parse emit (drop k buf) (pos - k) a =
      annexb_parse emit (drop k buf) (sc_offset next_sc - k) (nal_step emit buf sc next_sc a)"
    using Nal(5) by (simp add: annexb_parse_nal [OF 1 _ 2] nal_step_drop [OF k]) (simp add: shift_sc_def)
  with Nal(4) [OF kn] show ?case
    by (simp add: annexb_parse_nal [OF Nal(1-3)])
qed

lemma annexb_parse_shift0:
  assumes "findStartCode buf k = Some sc" and "sc_offset sc = k"
  shows "annexb_parse emit (drop k buf) 0 a =
     (case annexb_parse emit buf k a of (b, p, a') \<Rightarrow> (drop k b, p - k, a'))"
proof -
  have 1: "findStartCode (drop k buf) 0 = Some (shift_sc k sc)"
    using assms findStartCode_drop [of k buf 0] by simp
  have off: "sc_offset (shift_sc k sc) = 0" "sc_size (shift_sc k sc) = sc_size sc"
    using assms by (simp_all add: shift_sc_def)
  have no_skip: "\<not> (k = 0 \<and> 0 < sc_offset sc)"
    using assms by auto
  have next_eq: "findStartCode (drop k buf) (sc_size sc) =
      map_option (shift_sc k) (findStartCode buf (sc_offset sc + sc_size sc))"
    using assms findStartCode_drop [of k buf "sc_size sc"] by (simp add: add.commute)
  show ?thesis
  proof (cases "findStartCode buf (sc_offset sc + sc_size sc)")
    case None
    with next_eq have 2: "findStartCode (drop k buf) (sc_offset (shift_sc k sc) + sc_size (shift_sc k sc)) = None"
      by (simp add: off)
    show ?thesis
      by (simp add: annexb_parse_wait [OF assms(1) no_skip None] annexb_parse_wait [OF 1 _ 2] off)
  next
    case (Some next_sc)
    with next_eq have 2: "findStartCode (drop k buf) (sc_offset (shift_sc k sc) + sc_size (shift_sc k sc)) =
        Some (shift_sc k next_sc)"
      by (simp add: off)
    from findStartCode_bounds [OF assms(1)] findStartCode_bounds [OF Some] assms(2)
    have kn: "k < sc_offset next_sc" by auto
    have k: "k \<le> sc_offset sc" using assms by simp
    have "annexb_parse emit (drop k buf) 0 a =
        annexb_parse emit (drop k buf) (sc_offset next_sc - k) (nal_step emit buf sc next_sc a)"
      by (simp add: annexb_parse_nal [OF 1 _ 2] nal_step_drop [OF k] off) (simp add: shift_sc_def)
    with annexb_parse_shift [OF kn] show ?thesis
      by (simp add: annexb_parse_nal [OF assms(1) no_skip Some])
  qed
qed

lemma annexb_chunk_eq:
  "annexb_chunk emit chunk (buf, a) =
     (case annexb_parse emit (buf @ chunk) 0 a of (b, p, a') \<Rightarrow> (drop p b, a'))"
  by (auto simp: annexb_chunk_def split: prod.splits)

lemma annexb_chunk_append:
  "annexb_chunk emit c2 (annexb_chunk emit c1 s) = annexb_chunk emit (c1 @ c2) s"
proof -
  obtain buf a where s: "s = (buf, a)" by (cases s)
  obtain b1 p1 a1 where p1: "annexb_parse emit (buf @ c1) 0 a = (b1, p1, a1)"
    by (cases "annexb_parse emit (buf @ c1) 0 a")
  obtain b2 p2 a2 where p2: "annexb_parse emit (b1 @ c2) p1 a1 = (b2, p2, a2)"
    by (cases "annexb_parse emit (b1 @ c2) p1 a1")
  have at: "at_sc b1 p1"
    using annexb_parse_at_sc [OF _ p1] by (simp add: at_sc_def)
  have whole: "annexb_parse emit (buf @ c1 @ c2) 0 a = (b2, p2, a2)"
    using annexb_parse_resume [of emit "buf @ c1" c2 0 a] p1 p2 by simp
  have "annexb_parse emit (drop p1 b1 @ c2) 0 a1 = (drop p1 b2, p2 - p1, a2) \<and> p1 \<le> p2"
  proof (cases "p1 = 0")
    case True
    with p2 show ?thesis by simp
  next
    case False
    with at obtain sc where sc: "findStartCode b1 p1 = Some sc" "sc_offset sc = p1"
      by (auto simp: at_sc_def)
    from findStartCode_bounds [OF sc(1)] sc(2) have le: "p1 \<le> length b1" by simp
    from annexb_parse_shift0 [OF findStartCode_append [OF sc(1), of c2] sc(2), where emit = emit and a = a1]
      p2 le
    have "annexb_parse emit (drop p1 b1 @ c2) 0 a1 = (drop p1 b2, p2 - p1, a2)"
      by simp
    moreover from annexb_parse_keeps_buf [OF _ p2] False have "p1 \<le> p2" by simp
    ultimately show ?thesis by simp
  qed
  then show ?thesis
    by (simp add: s annexb_chunk_eq p1 whole)
qed

lemma fold_annexb_chunk:
  "fold (annexb_chunk emit) cs (annexb_chunk emit c s) = annexb_chunk emit (c @ concat cs) s"
  by (induction cs arbitrary: c) (simp_all add: annexb_chunk_append)

subsection \<open>The Annex-B loop in terms of the byte stream\<close>

lemma recv_sock_bytes:
  "0 < len \<Longrightarrow> recv len fd = (r, fd') \<Longrightarrow>
     (case r of
        None \<Rightarrow> sock_bytes fd = []
      | Some c \<Rightarrow> length c \<le> len \<and> (if c = [] then sock_bytes fd = [] else sock_bytes fd = c @ sock_bytes fd'))"
  by (cases "(len, fd)" rule: recv.cases) (auto split: if_splits)

lemma annexb_loop_bytes:
  "annexb_loop emit fd True s =
     (False, if sock_bytes fd = [] then s else annexb_chunk emit (sock_bytes fd) s)"
proof (induction emit fd "True" s rule: annexb_loop.induct)
  case (1 emit fd s)
  obtain r fd' where r: "recv kReadChunkSize fd = (r, fd')"
    by (cases "recv kReadChunkSize fd")
  have pos: "0 < kReadChunkSize" by (simp add: kReadChunkSize_def)
  note rb = recv_sock_bytes [OF pos r]
  show ?case
  proof (cases r)
    case None
    with r rb show ?thesis
      by (simp add: annexb_loop.simps [of emit fd True s])
  next
    case (Some chunk)
    show ?thesis
    proof (cases "chunk = []")
      case True
      with Some r rb show ?thesis
        by (simp add: annexb_loop.simps [of emit fd True s])
    next
      case False
      with Some r have "annexb_loop emit fd True s = annexb_loop emit fd' True (annexb_chunk emit chunk s)"
        by (simp add: annexb_loop.simps [of emit fd True s])
      also have "\<dots> = (False, if sock_bytes fd' = [] then annexb_chunk emit chunk s
          else annexb_chunk emit (sock_bytes fd') (annexb_chunk emit chunk s))"
        using "1.hyps" [OF _ r [symmetric] Some] False by simp
      finally show ?thesis
        using rb Some False by (simp add: annexb_chunk_append)
    qed
  qed
qed

subsection \<open>The AVCC loop in terms of the byte stream\<close>

lemma feed_nals_simps [simp]:
  "feed_nals emit [] a = a"
  "feed_nals emit (n # ns) a = feed_nals emit ns (emit n (isVclNal n) a)"
  "feed_nals emit (ms @ ns) a = feed_nals emit ns (feed_nals emit ms a)"
  by (simp_all add: feed_nals_def)

lemma recv_fill_bytes:
  "length filled \<le> want \<Longrightarrow> recv_fill want fd True filled = (fd', r, out) \<Longrightarrow>
     (if want - length filled \<le> length (sock_bytes fd)
      then r \<and> out = filled @ take (want - length filled) (sock_bytes fd) \<and>
           sock_bytes fd' = drop (want - length filled) (sock_bytes fd)
      else \<not> r)"
proof (induction want fd "True" filled rule: recv_fill.induct)
  case (1 want fd filled)
  show ?case
  proof (cases "length filled < want")
    case False
    with "1.prems" show ?thesis
      by (simp add: recv_fill_done)
  next
    case True
    obtain x fd1 where x: "recv (want - length filled) fd = (x, fd1)"
      by (cases "recv (want - length filled) fd")
    from True have "0 < want - length filled" by simp
    note rb = recv_sock_bytes [OF this x]
    note unf = recv_fill_unfold [OF True, of fd]
    show ?thesis
    proof (cases x)
      case None
      with x rb "1.prems" True show ?thesis
        by (simp add: unf)
    next
      case (Some c)
      show ?thesis
      proof (cases "c = []")
        case True
        with Some x rb "1.prems" \<open>length filled < want\<close> show ?thesis
          by (simp add: unf)
      next
        case False
        with Some rb have c: "length c \<le> want - length filled" "sock_bytes fd = c @ sock_bytes fd1"
          by simp_all
        from Some x False "1.prems" have rec: "recv_fill want fd1 True (filled @ c) = (fd', r, out)"
          by (simp add: unf)
        from c True have le: "length (filled @ c) \<le> want" by simp
        from "1.hyps" [OF _ x [symmetric] Some _ le rec] True False
        have ih: "if want - length (filled @ c) \<le> length (sock_bytes fd1)
          then r \<and> out = (filled @ c) @ take (want - length (filled @ c)) (sock_bytes fd1) \<and>
               sock_bytes fd' = drop (want - length (filled @ c)) (sock_bytes fd1)
          else \<not> r"
          by simp
        from c True have eq: "want - length filled \<le> length (sock_bytes fd) \<longleftrightarrow>
            want - length (filled @ c) \<le> length (sock_bytes fd1)"
          by auto
        show ?thesis
        proof (cases "want - length filled \<le> length (sock_bytes fd)")
          case True
          with ih eq c show ?thesis by simp
        next
          case False
          with ih eq show ?thesis by simp
        qed
      qed
    qed
  qed
qed

lemma avcc_loop_records:
  "avcc_loop emit fd True a = (False, feed_nals emit (spec_avcc_nals (sock_bytes fd)) a)"
proof (induction emit fd "True" a rule: avcc_loop.induct)
  case (1 emit fd a)
  let ?bs = "sock_bytes fd"
  obtain fd1 r1 lenBuf where h: "recv_fill 4 fd True [] = (fd1, r1, lenBuf)"
    by (cases "recv_fill 4 fd True []")
  from recv_fill_bytes [OF _ h]
  have hb: "if 4 \<le> length ?bs then r1 \<and> lenBuf = take 4 ?bs \<and> sock_bytes fd1 = drop 4 ?bs else \<not> r1"
    by simp
  show ?case
  proof (cases "4 \<le> length ?bs")
    case False
    with hb h show ?thesis
      by (simp add: avcc_loop.simps [of emit fd True a] spec_avcc_nals.simps [of ?bs])
  next
    case True
    with hb have r1: "r1" and lb: "lenBuf = take 4 ?bs" and b1: "sock_bytes fd1 = drop 4 ?bs"
      by simp_all
    from True lb have l4: "length lenBuf = 4" by simp
    let ?len = "unat (be32 lenBuf)"
    show ?thesis
    proof (cases "be32 lenBuf = 0 \<or> kMaxNalSize < ?len")
      case bad: True
      then have "?len = 0 \<or> kMaxNalSize < ?len"
        by (auto simp: unat_eq_0)
      with bad h r1 l4 True lb show ?thesis
        by (simp add: avcc_loop.simps [of emit fd True a] spec_avcc_nals.simps [of ?bs] Let_def)
    next
      case ok: False
      then have ok': "\<not> (?len = 0 \<or> kMaxNalSize < ?len)"
        by (auto simp: unat_eq_0)
      obtain fd2 r2 nal where n: "recv_fill ?len fd1 True [] = (fd2, r2, nal)"
        by (cases "recv_fill ?len fd1 True []")
      from recv_fill_bytes [OF _ n] b1
      have nb: "if ?len \<le> length ?bs - 4
          then r2 \<and> nal = take ?len (drop 4 ?bs) \<and> sock_bytes fd2 = drop (4 + ?len) ?bs else \<not> r2"
        by (simp add: add.commute)
      show ?thesis
      proof (cases "?len \<le> length ?bs - 4")
        case short: False
        with nb have "\<not> r2" by simp
        with ok h r1 l4 n short True lb ok' show ?thesis
          by (simp add: avcc_loop.simps [of emit fd True a] spec_avcc_nals.simps [of ?bs] Let_def)
      next
        case full: True
        with nb have r2: "r2" and nal: "nal = take ?len (drop 4 ?bs)"
          and b2: "sock_bytes fd2 = drop (4 + ?len) ?bs"
          by simp_all
        from full nal have ln: "length nal = ?len" by simp
        have "avcc_loop emit fd True a = avcc_loop emit fd2 True (emit nal (isVclNal nal) a)"
          using ok h r1 l4 n r2 ln
          by (simp add: avcc_loop.simps [of emit fd True a] Let_def)
        also have "\<dots> = (False, feed_nals emit (spec_avcc_nals (sock_bytes fd2)) (emit nal (isVclNal nal) a))"
          using "1.hyps" [of fd1 "(r1, lenBuf)" r1 lenBuf "be32 lenBuf" fd2 "(True, nal)" nal]
            h n r1 l4 ok r2 ln
          by simp
        also have "spec_avcc_nals ?bs = nal # spec_avcc_nals (sock_bytes fd2)"
          using True ok' full lb nal b2
          by (simp add: spec_avcc_nals.simps [of ?bs] Let_def)
        then have "feed_nals emit (spec_avcc_nals (sock_bytes fd2)) (emit nal (isVclNal nal) a) =
            feed_nals emit (spec_avcc_nals ?bs) a"
          by simp
        finally show ?thesis .
      qed
    qed
  qed
qed

subsection \<open>The NAL units handed to the closure\<close>

lemma nal_step_collect:
  "nal_step emit buf sc next_sc (feed_nals emit l a0) = feed_nals emit (nal_step collect buf sc next_sc l) a0"
  by (simp add: nal_step_def collect_def)

lemma annexb_parse_collect:
  "annexb_parse collect buf pos l = (b, p, l') \<Longrightarrow>
   annexb_parse emit buf pos (feed_nals emit l a0) = (b, p, feed_nals emit l' a0)"
proof (induction buf pos l rule: annexb_parse_cases_induct [where emit = collect])
  case (None buf pos a)
  then show ?case by (simp add: annexb_parse_None)
next
  case (Skip buf a sc)
  then show ?case by (simp add: annexb_parse_skip)
next
  case (Wait buf pos a sc)
  then show ?case by (simp add: annexb_parse_wait)
next
  case (Nal buf pos a sc next_sc)
  then show ?case by (simp add: annexb_parse_nal nal_step_collect)
qed

lemma annexb_parse_nonempty:
  "annexb_parse collect buf pos l = (b, p, l') \<Longrightarrow> [] \<notin> set l \<Longrightarrow> [] \<notin> set l'"
proof (induction buf pos l rule: annexb_parse_cases_induct [where emit = collect])
  case (None buf pos a)
  then show ?case by (simp add: annexb_parse_None)
next
  case (Skip buf a sc)
  then show ?case by (simp add: annexb_parse_skip)
next
  case (Wait buf pos a sc)
  then show ?case by (simp add: annexb_parse_wait)
next
  case (Nal buf pos a sc next_sc)
  from findStartCode_bounds [OF Nal(3)]
  have "[] \<notin> set (nal_step collect buf sc next_sc a)"
    using Nal(6) by (auto simp: nal_step_def nal_between_def collect_def)
  with Nal show ?case by (simp add: annexb_parse_nal)
qed

lemma annexb_nals_nonempty: "[] \<notin> set (annexb_nals bytes)"
  using annexb_parse_nonempty [of bytes 0 "[]"]
  by (cases "annexb_parse collect bytes 0 []") (simp add: annexb_nals_def)

lemma annexb_chunk_nals:
  "snd (annexb_chunk emit bytes ([], a)) = feed_nals emit (annexb_nals bytes) a"
  using annexb_parse_collect [of bytes 0 "[]" _ _ _ emit a]
  by (cases "annexb_parse collect bytes 0 []") (simp add: annexb_chunk_eq annexb_nals_def)

lemma annexb_nals_Nil: "annexb_nals [] = []"
  by (simp add: annexb_nals_def annexb_parse_None findStartCode_None)

lemma spec_avcc_nals_nonempty: "[] \<notin> set (spec_avcc_nals bs)"
proof (induction bs rule: spec_avcc_nals.induct)
  case (1 bs)
  then show ?case
    by (subst spec_avcc_nals.simps) (auto simp: Let_def)
qed

subsection \<open>The assembler\<close>

lemma isVclNal_spec: "nal \<noteq> [] \<Longrightarrow> isVclNal nal = spec_is_vcl nal"
  by (cases nal) (simp_all add: isVclNal_def spec_is_vcl_def nal_type_def Let_def)

lemma isIdrNal_spec: "nal \<noteq> [] \<Longrightarrow> isIdrNal nal = spec_is_idr nal"
  by (cases nal) (simp_all add: isIdrNal_def spec_is_idr_def nal_type_def)

lemma spec_frame_snoc: "spec_frame (acc @ [nal]) = spec_frame acc @ kStartCode @ nal"
  by (simp add: spec_frame_def)

lemma feed_nals_assembler:
  "[] \<notin> set nals \<Longrightarrow> access_unit a = spec_frame acc \<Longrightarrow> has_idr a = list_ex spec_is_idr acc \<Longrightarrow>
   feed_nals (emit_access_unit cb) nals a =
     \<lparr>access_unit = spec_frame (spec_pending acc nals),
      has_idr = list_ex spec_is_idr (spec_pending acc nals),
      delivered = delivered a @ (if cb then map spec_au (spec_groups acc nals) else [])\<rparr>"
proof (induction nals arbitrary: acc a)
  case Nil
  then show ?case by simp
next
  case (Cons nal nals)
  from Cons.prems(1) have ne: "nal \<noteq> []" and rest: "[] \<notin> set nals"
    by auto
  note vcl = isVclNal_spec [OF ne] and idr = isIdrNal_spec [OF ne]
  show ?case
  proof (cases "spec_is_vcl nal")
    case True
    let ?a = "emit_access_unit cb nal True a"
    have 1: "access_unit ?a = spec_frame []" "has_idr ?a = list_ex spec_is_idr []"
      by (simp_all add: emit_access_unit_def spec_frame_def Let_def)
    have 2: "delivered ?a = delivered a @ (if cb then [spec_au (acc @ [nal])] else [])"
      using Cons.prems(2,3)
      by (auto simp add: emit_access_unit_def Let_def spec_au_def spec_frame_snoc idr)
    have "feed_nals (emit_access_unit cb) (nal # nals) a = feed_nals (emit_access_unit cb) nals ?a"
      using True by (simp add: vcl)
    with Cons.IH [OF rest 1] True 2 show ?thesis
      by simp
  next
    case False
    let ?a = "emit_access_unit cb nal False a"
    have 1: "access_unit ?a = spec_frame (acc @ [nal])"
      "has_idr ?a = list_ex spec_is_idr (acc @ [nal])"
      using Cons.prems(2,3) by (auto simp add: emit_access_unit_def spec_frame_snoc Let_def idr)
    have 2: "delivered ?a = delivered a"
      by (simp add: emit_access_unit_def Let_def)
    have "feed_nals (emit_access_unit cb) (nal # nals) a = feed_nals (emit_access_unit cb) nals ?a"
      using False by (simp add: vcl)
    with Cons.IH [OF rest 1] False 2 show ?thesis
      by simp
  qed
qed

lemma loop_nals_nonempty: "[] \<notin> set (loop_nals framing fd)"
  by (simp add: loop_nals_def annexb_nals_nonempty spec_avcc_nals_nonempty)

lemma feed_nals_assembler0:
  "[] \<notin> set nals \<Longrightarrow>
   feed_nals (emit_access_unit cb) nals assembler0 =
     \<lparr>access_unit = spec_frame (spec_pending [] nals),
      has_idr = list_ex spec_is_idr (spec_pending [] nals),
      delivered = (if cb then map spec_au (spec_groups [] nals) else [])\<rparr>"
proof -
  assume ne: "[] \<notin> set nals"
  have a0: "access_unit assembler0 = spec_frame []" "has_idr assembler0 = list_ex spec_is_idr []"
    and d0: "delivered assembler0 = []"
    by (simp_all add: assembler0_def spec_frame_def)
  show ?thesis
    by (simp add: feed_nals_assembler [OF ne a0] d0)
qed

lemma loop_delivered:
  "loop cb framing (Some fd) True =
     (False, if cb then map spec_au (spec_groups [] (loop_nals framing fd)) else [])"
proof (cases "framing = AnnexB")
  case True
  obtain r b a where l: "annexb_loop (emit_access_unit cb) fd True ([], assembler0) = (r, b, a)"
    by (cases "annexb_loop (emit_access_unit cb) fd True ([], assembler0)")
  have "snd (snd (annexb_loop (emit_access_unit cb) fd True ([], assembler0))) =
      feed_nals (emit_access_unit cb) (annexb_nals (sock_bytes fd)) assembler0"
    by (simp add: annexb_loop_bytes annexb_chunk_nals annexb_nals_Nil)
  with l have "a = feed_nals (emit_access_unit cb) (annexb_nals (sock_bytes fd)) assembler0"
    by simp
  then have "delivered a = (if cb then map spec_au (spec_groups [] (annexb_nals (sock_bytes fd))) else [])"
    by (simp add: feed_nals_assembler0 [OF annexb_nals_nonempty])
  with True l show ?thesis
    by (simp add: loop_def loop_nals_def)
next
  case False
  then show ?thesis
    by (simp add: loop_def loop_nals_def avcc_loop_records
        feed_nals_assembler0 [OF spec_avcc_nals_nonempty])
qed

lemma loop_not_running: "loop cb framing (Some fd) False = (False, [])"
  by (simp add: loop_def annexb_loop.simps [of _ _ False] avcc_loop.simps [of _ _ False]
      assembler0_def)

lemma loop_no_socket: "loop cb framing None r = (False, [])"
  by (simp add: loop_def)

lemma loop_result:
  "loop cb framing (Some fd) r =
     (False, if r \<and> cb then map spec_au (spec_groups [] (loop_nals framing fd)) else [])"
  by (cases r) (simp_all add: loop_delivered loop_not_running)

lemma sock_bytes_fail:
  "sock_bytes (pre @ Err # post) = sock_bytes pre"
  "sock_bytes (pre @ Data [] # post) = sock_bytes pre"
  by (induction pre rule: sock_bytes.induct) simp_all

subsection \<open>The grouping of NAL units into access units\<close>

lemma spec_groups_partition:
  "concat (spec_groups acc nals) @ spec_pending acc nals = acc @ nals"
  by (induction nals arbitrary: acc) simp_all

lemma spec_groups_shape:
  "\<not> list_ex spec_is_vcl acc \<Longrightarrow>
   list_all (\<lambda>g. g \<noteq> [] \<and> spec_is_vcl (last g) \<and> \<not> list_ex spec_is_vcl (butlast g))
     (spec_groups acc nals)"
  by (induction nals arbitrary: acc) (simp_all add: butlast_append)

lemma spec_pending_no_vcl:
  "\<not> list_ex spec_is_vcl acc \<Longrightarrow> \<not> list_ex spec_is_vcl (spec_pending acc nals)"
  by (induction nals arbitrary: acc) simp_all

lemma length_spec_groups:
  "length (spec_groups acc nals) = length (filter spec_is_vcl nals)"
  by (induction nals arbitrary: acc) simp_all

text \<open>
  The state in which the inner loops end, and what \<open>loop\<close> makes of it: the access
  units delivered inside the inner loop and nothing else.
\<close>

lemma annexb_loop_state:
  "snd (snd (annexb_loop (emit_access_unit cb) fd True ([], assembler0))) =
     \<lparr>access_unit = spec_frame (spec_pending [] (loop_nals AnnexB fd)),
      has_idr = list_ex spec_is_idr (spec_pending [] (loop_nals AnnexB fd)),
      delivered = (if cb then map spec_au (spec_groups [] (loop_nals AnnexB fd)) else [])\<rparr>"
proof -
  have "snd (snd (annexb_loop (emit_access_unit cb) fd True ([], assembler0))) =
      feed_nals (emit_access_unit cb) (annexb_nals (sock_bytes fd)) assembler0"
    by (simp add: annexb_loop_bytes annexb_chunk_nals annexb_nals_Nil)
  then show ?thesis
    by (simp add: loop_nals_def feed_nals_assembler0 [OF annexb_nals_nonempty])
qed

lemma avcc_loop_state:
  "snd (avcc_loop (emit_access_unit cb) fd True assembler0) =
     \<lparr>access_unit = spec_frame (spec_pending [] (loop_nals Avcc fd)),
      has_idr = list_ex spec_is_idr (spec_pending [] (loop_nals Avcc fd)),
      delivered = (if cb then map spec_au (spec_groups [] (loop_nals Avcc fd)) else [])\<rparr>"
  by (simp add: avcc_loop_records loop_nals_def feed_nals_assembler0 [OF spec_avcc_nals_nonempty])

lemma spec_groups_no_vcl:
  "\<not> list_ex spec_is_vcl nals \<Longrightarrow> spec_groups acc nals = []"
  by (induction nals arbitrary: acc) simp_all

lemma loop_inner:
  "loop cb AnnexB (Some fd) r =
     (False, delivered (snd (snd (annexb_loop (emit_access_unit cb) fd r ([], assembler0)))))"
  "loop cb Avcc (Some fd) r =
     (False, delivered (snd (avcc_loop (emit_access_unit cb) fd r assembler0)))"
  by (simp_all add: loop_def split: prod.splits)

lemma spec_groups_nonempty:
  "[] \<notin> set acc \<Longrightarrow> [] \<notin> set nals \<Longrightarrow>
   list_all (\<lambda>g. g \<noteq> [] \<and> [] \<notin> set g) (spec_groups acc nals)"
  by (induction nals arbitrary: acc) auto

lemma spec_frame_start:
  "g \<noteq> [] \<Longrightarrow> spec_frame g \<noteq> [] \<and> take 4 (spec_frame g) = kStartCode"
  by (cases g) (simp_all add: spec_frame_def kStartCode_def)

subsection \<open>The big-endian length\<close>

lemma or_push_bit_nat:
  "d < 2 ^ n \<Longrightarrow> push_bit n x OR d = push_bit n x + (d :: nat)"
proof -
  assume d: "d < 2 ^ n"
  then have td: "take_bit n d = d" by (rule take_bit_nat_eq_self)
  have "push_bit n x AND take_bit n d = 0"
    by (rule bit_eqI) (auto simp add: bit_simps)
  then show ?thesis
    by (simp add: disjunctive_add_eq_or td)
qed

lemma be32_unat:
  "unat (be32 [b0, b1, b2, b3]) = unat b0 * 2 ^ 24 + unat b1 * 2 ^ 16 + unat b2 * 2 ^ 8 + unat b3"
proof -
  define a b c d where abcd: "a = unat b0" "b = unat b1" "c = unat b2" "d = unat b3"
  have lt: "a < 2 ^ 8" "b < 2 ^ 8" "c < 2 ^ 8" "d < 2 ^ 8"
    using unsigned_less [of b0] unsigned_less [of b1] unsigned_less [of b2] unsigned_less [of b3]
    by (simp_all add: abcd)
  have tb: "take_bit 32 x = x" if "x < 2 ^ 32" for x :: nat
    using that by (rule take_bit_nat_eq_self)
  have small: "push_bit 24 a < (2 :: nat) ^ 32" "push_bit 16 b < (2 :: nat) ^ 32"
    "push_bit 8 c < (2 :: nat) ^ 32" "a < 2 ^ 32" "b < 2 ^ 32" "c < 2 ^ 32" "d < 2 ^ 32"
    using lt by (simp_all add: push_bit_eq_mult)
  have "unat (be32 [b0, b1, b2, b3]) =
      push_bit 24 a OR push_bit 16 b OR push_bit 8 c OR d"
    unfolding be32_def nth_Cons_0 nth_Cons_numeral nth_Cons_Suc
    by (simp add: unsigned_or_eq unsigned_push_bit_eq unsigned_ucast_eq abcd [symmetric]
        small [THEN tb] del: take_bit_of_nat)
  also have "\<dots> = push_bit 8 (push_bit 8 (push_bit 8 a OR b) OR c) OR d"
    by (simp add: push_bit_or push_bit_push_bit or.assoc)
  also have "push_bit 8 a OR b = push_bit 8 a + b"
    by (rule or_push_bit_nat) fact
  also have "push_bit 8 (push_bit 8 a + b) OR c = push_bit 8 (push_bit 8 a + b) + c"
    by (rule or_push_bit_nat) fact
  also have "push_bit 8 (push_bit 8 (push_bit 8 a + b) + c) OR d =
      push_bit 8 (push_bit 8 (push_bit 8 a + b) + c) + d"
    by (rule or_push_bit_nat) fact
  also have "\<dots> = a * 2 ^ 24 + b * 2 ^ 16 + c * 2 ^ 8 + d"
    by (simp add: push_bit_eq_mult)
  finally show ?thesis
    by (simp add: abcd)
qed

subsection \<open>The life cycle\<close>




subsection \<open>Failing reads and incomplete records\<close>

lemma sock_bytes_chunks:
  "[] \<notin> set chunks \<Longrightarrow> sock_bytes (map Data chunks) = concat chunks"
  "[] \<notin> set chunks \<Longrightarrow> sock_bytes (map Data chunks @ Err # post) = concat chunks"
  "[] \<notin> set chunks \<Longrightarrow> sock_bytes (map Data chunks @ Data [] # post) = concat chunks"
  by (induction chunks) auto

lemma fold_annexb_chunk_concat:
  "[] \<notin> set chunks \<Longrightarrow>
   fold (annexb_chunk emit) chunks s =
     (if concat chunks = [] then s else annexb_chunk emit (concat chunks) s)"
  by (cases chunks) (auto simp add: fold_annexb_chunk)

lemma annexb_loop_chunks:
  "[] \<notin> set chunks \<Longrightarrow> sock_bytes fd = concat chunks \<Longrightarrow>
   annexb_loop emit fd True s = (False, fold (annexb_chunk emit) chunks s)"
  by (simp add: annexb_loop_bytes fold_annexb_chunk_concat)

lemma spec_avcc_nals_short:
  "length bs < 4 \<Longrightarrow> spec_avcc_nals bs = []"
  by (simp add: spec_avcc_nals.simps [of bs])

lemma spec_avcc_nals_header:
  "length hdr = 4 \<Longrightarrow>
   spec_avcc_nals (hdr @ rest) =
     (if unat (be32 hdr) = 0 \<or> kMaxNalSize < unat (be32 hdr) then []
      else if length rest < unat (be32 hdr) then []
      else take (unat (be32 hdr)) rest # spec_avcc_nals (drop (unat (be32 hdr)) rest))"
  by (simp add: spec_avcc_nals.simps [of "hdr @ rest"] Let_def)

subsection \<open>Scanning over a NAL unit that holds no start code\<close>

lemma findStartCode_here3:
  "findStartCode (pre @ 0 # 0 # 1 # x # xs) (length pre) =
     Some \<lparr>sc_offset = length pre, sc_size = 3\<rparr>"
  by (simp add: findStartCode.simps [of _ "length pre"] nth_append)

lemma findStartCode_here4:
  "findStartCode (pre @ 0 # 0 # 0 # 1 # x # xs) (length pre) =
     Some \<lparr>sc_offset = length pre, sc_size = 4\<rparr>"
  by (simp add: findStartCode.simps [of _ "length pre"] nth_append)

lemma findStartCode_skip_clean:
  "no_start_code p \<Longrightarrow> p = [] \<or> last p \<noteq> 0 \<Longrightarrow>
   findStartCode (pre @ p @ tail) (length pre) = findStartCode (pre @ p @ tail) (length pre + length p)"
proof (induction p arbitrary: pre)
  case Nil
  then show ?case by simp
next
  case (Cons a p)
  let ?buf = "pre @ (a # p) @ tail"
  let ?i = "length pre"
  have tl: "no_start_code p" "p = [] \<or> last p \<noteq> 0"
    using Cons.prems by (cases p; cases "tl p"; auto)+
  have ih: "findStartCode ?buf (?i + 1) = findStartCode ?buf (?i + length (a # p))"
    using Cons.IH [OF tl, of "pre @ [a]"] by simp
  show ?case
  proof (cases "?i + 3 < length ?buf")
    case False
    then show ?thesis
      by (simp add: findStartCode_None)
  next
    case True
    have no_match: "\<not> (?buf ! ?i = 0 \<and> ?buf ! (?i + 1) = 0 \<and>
        (?buf ! (?i + 2) = 1 \<or> ?buf ! (?i + 2) = 0))"
    proof (cases p)
      case Nil
      with Cons.prems show ?thesis by (simp add: nth_append)
    next
      case p: (Cons b q)
      show ?thesis
      proof (cases q)
        case Nil
        with p Cons.prems show ?thesis by (simp add: nth_append)
      next
        case (Cons c r)
        with p Cons.prems show ?thesis by (auto simp add: nth_append)
      qed
    qed
    then have "findStartCode ?buf ?i = findStartCode ?buf (?i + 1)"
      using True by (subst findStartCode.simps) auto
    with ih show ?thesis by simp
  qed
qed

lemma findStartCode_skip_clean_at:
  "no_start_code p \<Longrightarrow> p = [] \<or> last p \<noteq> 0 \<Longrightarrow> length pre = n \<Longrightarrow>
   findStartCode (pre @ p @ tail) n = findStartCode (pre @ p @ tail) (n + length p)"
  using findStartCode_skip_clean [of p pre tail] by auto

lemma findStartCode_here3_at:
  "length pre = n \<Longrightarrow>
   findStartCode (pre @ 0 # 0 # 1 # x # xs) n = Some \<lparr>sc_offset = n, sc_size = 3\<rparr>"
  using findStartCode_here3 [of pre x xs] by auto

lemma findStartCode_here4_at:
  "length pre = n \<Longrightarrow>
   findStartCode (pre @ 0 # 0 # 0 # 1 # x # xs) n = Some \<lparr>sc_offset = n, sc_size = 4\<rparr>"
  using findStartCode_here4 [of pre x xs] by auto

lemma nal_step_collect_concat:
  "sc_offset sc + sc_size sc = length pre \<Longrightarrow> sc_offset next_sc = length pre + length nal \<Longrightarrow>
   nal \<noteq> [] \<Longrightarrow> nal_step collect (pre @ nal @ post) sc next_sc l = l @ [nal]"
  by (simp add: nal_step_def nal_between_def collect_def)

lemma annexb_nals_two_units:
  assumes sps: "clean_nal sps" and idr: "clean_nal idr"
    and tail: "tail = [0, 0, 1, x] \<or> tail = [0, 0, 0, 1, x]"
  shows "annexb_nals ([0, 0, 0, 1] @ sps @ [0, 0, 1] @ idr @ tail) = [sps, idr]"
proof -
  let ?buf = "[0, 0, 0, 1] @ sps @ [0, 0, 1] @ idr @ tail"
  let ?q1 = "4 + length sps"
  let ?q2 = "4 + length sps + 3 + length idr"
  from sps obtain s0 sps' where s0: "sps = s0 # sps'"
    by (cases sps) (auto simp: clean_nal_def)
  from idr obtain i0 idr' where i0: "idr = i0 # idr'"
    by (cases idr) (auto simp: clean_nal_def)
  from sps have csps: "no_start_code sps" "sps = [] \<or> last sps \<noteq> 0"
    by (simp_all add: clean_nal_def)
  from idr have cidr: "no_start_code idr" "idr = [] \<or> last idr \<noteq> 0"
    by (simp_all add: clean_nal_def)
  define sz where "sz = (if tail = [0, 0, 1, x] then 3 else 4 :: nat)"
  define sc1 where "sc1 = \<lparr>sc_offset = 0, sc_size = 4\<rparr>"
  define sc2 where "sc2 = \<lparr>sc_offset = ?q1, sc_size = 3\<rparr>"
  define sc3 where "sc3 = \<lparr>sc_offset = ?q2, sc_size = sz\<rparr>"
  have o: "sc_offset sc1 = 0" "sc_size sc1 = 4" "sc_offset sc2 = ?q1" "sc_size sc2 = 3"
    "sc_offset sc3 = ?q2" "sc_size sc3 = sz"
    by (simp_all add: sc1_def sc2_def sc3_def)
  have f1: "findStartCode ?buf 0 = Some sc1"
    using findStartCode_here4_at [of "[]" 0 s0 "sps' @ [0, 0, 1] @ idr @ tail"]
    by (simp add: s0 sc1_def)
  have "findStartCode ?buf 4 = findStartCode ?buf ?q1"
    using findStartCode_skip_clean_at [OF csps, of "[0, 0, 0, 1]" 4 "[0, 0, 1] @ idr @ tail"]
    by simp
  also have "\<dots> = Some sc2"
    using findStartCode_here3_at [of "[0, 0, 0, 1] @ sps" ?q1 i0 "idr' @ tail"]
    by (simp add: i0 sc2_def)
  finally have f2: "findStartCode ?buf (sc_offset sc1 + sc_size sc1) = Some sc2"
    by (simp add: o)
  have f3: "findStartCode ?buf ?q1 = Some sc2"
    using findStartCode_at_offset [OF f2] by (simp add: o)
  have "findStartCode ?buf (?q1 + 3) = findStartCode ?buf ?q2"
    using findStartCode_skip_clean_at [OF cidr, of "[0, 0, 0, 1] @ sps @ [0, 0, 1]" "?q1 + 3" tail]
    by (simp add: add.assoc)
  also have "\<dots> = Some sc3"
    using tail findStartCode_here3_at [of "[0, 0, 0, 1] @ sps @ [0, 0, 1] @ idr" ?q2 x "[]"]
      findStartCode_here4_at [of "[0, 0, 0, 1] @ sps @ [0, 0, 1] @ idr" ?q2 x "[]"]
    by (auto simp add: sc3_def sz_def add.assoc)
  finally have f4: "findStartCode ?buf (sc_offset sc2 + sc_size sc2) = Some sc3"
    by (simp add: o)
  have f5: "findStartCode ?buf ?q2 = Some sc3"
    using findStartCode_at_offset [OF f4] by (simp add: o)
  have f6: "findStartCode ?buf (sc_offset sc3 + sc_size sc3) = None"
    using tail by (intro findStartCode_None) (auto simp add: o sz_def)
  have n1: "nal_step collect ?buf sc1 sc2 [] = [sps]"
    using nal_step_collect_concat [of sc1 "[0, 0, 0, 1]" sc2 sps "[0, 0, 1] @ idr @ tail" "[]"]
    by (simp add: o s0)
  have n2: "nal_step collect ?buf sc2 sc3 [sps] = [sps, idr]"
    using nal_step_collect_concat [of sc2 "[0, 0, 0, 1] @ sps @ [0, 0, 1]" sc3 idr tail "[sps]"]
    by (simp add: o i0)
  have "annexb_parse collect ?buf 0 [] =
      annexb_parse collect ?buf (sc_offset sc2) (nal_step collect ?buf sc1 sc2 [])"
    by (rule annexb_parse_nal [OF f1 _ f2]) (simp add: o)
  also have "\<dots> = annexb_parse collect ?buf ?q1 [sps]"
    by (simp only: n1 o)
  also have "\<dots> = annexb_parse collect ?buf (sc_offset sc3) (nal_step collect ?buf sc2 sc3 [sps])"
    by (rule annexb_parse_nal [OF f3 _ f4]) (simp add: o)
  also have "\<dots> = annexb_parse collect ?buf ?q2 [sps, idr]"
    by (simp only: n2 o)
  also have "\<dots> = (?buf, ?q2, [sps, idr])"
    by (rule annexb_parse_wait [OF f5 _ f6]) (simp add: o)
  finally show ?thesis
    by (simp add: annexb_nals_def)
qed

lemma annexb_nals_last_unit_pending:
  assumes sps: "clean_nal sps" and idr: "clean_nal idr"
  shows "annexb_nals ([0, 0, 0, 1] @ sps @ [0, 0, 1] @ idr) = [sps]"
proof -
  let ?buf = "[0, 0, 0, 1] @ sps @ [0, 0, 1] @ idr"
  let ?q1 = "4 + length sps"
  from sps obtain s0 sps' where s0: "sps = s0 # sps'"
    by (cases sps) (auto simp: clean_nal_def)
  from idr obtain i0 idr' where i0: "idr = i0 # idr'"
    by (cases idr) (auto simp: clean_nal_def)
  from sps have csps: "no_start_code sps" "sps = [] \<or> last sps \<noteq> 0"
    by (simp_all add: clean_nal_def)
  from idr have cidr: "no_start_code idr" "idr = [] \<or> last idr \<noteq> 0"
    by (simp_all add: clean_nal_def)
  define sc1 where "sc1 = \<lparr>sc_offset = 0, sc_size = 4\<rparr>"
  define sc2 where "sc2 = \<lparr>sc_offset = ?q1, sc_size = 3\<rparr>"
  have o: "sc_offset sc1 = 0" "sc_size sc1 = 4" "sc_offset sc2 = ?q1" "sc_size sc2 = 3"
    by (simp_all add: sc1_def sc2_def)
  have f1: "findStartCode ?buf 0 = Some sc1"
    using findStartCode_here4_at [of "[]" 0 s0 "sps' @ [0, 0, 1] @ idr"]
    by (simp add: s0 sc1_def)
  have "findStartCode ?buf 4 = findStartCode ?buf ?q1"
    using findStartCode_skip_clean_at [OF csps, of "[0, 0, 0, 1]" 4 "[0, 0, 1] @ idr"]
    by simp
  also have "\<dots> = Some sc2"
    using findStartCode_here3_at [of "[0, 0, 0, 1] @ sps" ?q1 i0 "idr'"]
    by (simp add: i0 sc2_def)
  finally have f2: "findStartCode ?buf (sc_offset sc1 + sc_size sc1) = Some sc2"
    by (simp add: o)
  have f3: "findStartCode ?buf ?q1 = Some sc2"
    using findStartCode_at_offset [OF f2] by (simp add: o)
  have "findStartCode ?buf (?q1 + 3) = findStartCode ?buf (?q1 + 3 + length idr)"
    using findStartCode_skip_clean_at [OF cidr, of "[0, 0, 0, 1] @ sps @ [0, 0, 1]" "?q1 + 3" "[]"]
    by (simp add: add.assoc)
  also have "\<dots> = None"
    by (intro findStartCode_None) simp
  finally have f4: "findStartCode ?buf (sc_offset sc2 + sc_size sc2) = None"
    by (simp add: o)
  have n1: "nal_step collect ?buf sc1 sc2 [] = [sps]"
    using nal_step_collect_concat [of sc1 "[0, 0, 0, 1]" sc2 sps "[0, 0, 1] @ idr" "[]"]
    by (simp add: o s0)
  have "annexb_parse collect ?buf 0 [] =
      annexb_parse collect ?buf (sc_offset sc2) (nal_step collect ?buf sc1 sc2 [])"
    by (rule annexb_parse_nal [OF f1 _ f2]) (simp add: o)
  also have "\<dots> = annexb_parse collect ?buf ?q1 [sps]"
    by (simp only: n1 o)
  also have "\<dots> = (?buf, ?q1, [sps])"
    by (rule annexb_parse_wait [OF f3 _ f4]) (simp add: o)
  finally show ?thesis
    by (simp add: annexb_nals_def)
qed

section \<open>The claims\<close>

text \<open>Unfolding rules for running the worker and the specification on concrete inputs.\<close>

lemmas worker_eval =
  loop_def annexb_loop.simps avcc_loop.simps recv_fill.simps be32_def kReadChunkSize_def
  kMaxNalSize_def annexb_chunk_def annexb_parse.simps findStartCode.simps emit_access_unit_def
  isVclNal_def isIdrNal_def kStartCode_def assembler0_def

lemmas spec_eval =
  spec_is_vcl_def spec_is_idr_def nal_type_def spec_frame_def kStartCode_def

lemma avcc_example_nals:
  "loop_nals Avcc avcc_example = [[0x67, 0x42], [0x65, 0x88], [0x41], [0x68]]"
  by (simp add: avcc_example_def loop_nals_def spec_avcc_nals.simps be32_def kMaxNalSize_def)

subsection \<open>C1: emission exactly at the VCL NAL units\<close>

text \<open>
  Claim C1. With the flag the two loops pass (\<open>isVclNal\<close> of the NAL itself), one call
  of the closure on a non-empty NAL hands an access unit to the callback exactly when
  the type of the NAL (first byte \<open>AND 0x1F\<close>) is 1 or 5; otherwise the NAL is appended
  to the pending buffer after a start code and nothing is delivered. For the worker in
  either framing, the access units delivered are, in order, the framings of the groups
  into which the NAL units read from the socket fall when a group is closed after each
  NAL of type 1 or 5: every group ends with its only such NAL, and the NAL units after
  the last one stay pending.
\<close>

theorem emission_exactly_at_vcl_nals:
  "delivered (emit_access_unit True (b # bs) (isVclNal (b # bs)) a) =
     (if b AND 0x1f = 1 \<or> b AND 0x1f = 5
      then delivered a @ [\<lparr>data = access_unit a @ kStartCode @ b # bs,
                           is_keyframe = (b AND 0x1f = 5 \<or> has_idr a)\<rparr>]
      else delivered a) \<and>
   access_unit (emit_access_unit True (b # bs) (isVclNal (b # bs)) a) =
     (if b AND 0x1f = 1 \<or> b AND 0x1f = 5 then [] else access_unit a @ kStartCode @ b # bs) \<and>
   [] \<notin> set (loop_nals framing fd) \<and>
   map data (snd (loop True framing (Some fd) True)) =
     map spec_frame (spec_groups [] (loop_nals framing fd)) \<and>
   concat (spec_groups [] (loop_nals framing fd)) @ spec_pending [] (loop_nals framing fd) =
     loop_nals framing fd \<and>
   list_all (\<lambda>g. g \<noteq> [] \<and> spec_is_vcl (last g) \<and> \<not> list_ex spec_is_vcl (butlast g))
     (spec_groups [] (loop_nals framing fd)) \<and>
   \<not> list_ex spec_is_vcl (spec_pending [] (loop_nals framing fd))"
proof (intro conjI)
  show "delivered (emit_access_unit True (b # bs) (isVclNal (b # bs)) a) =
     (if b AND 0x1f = 1 \<or> b AND 0x1f = 5
      then delivered a @ [\<lparr>data = access_unit a @ kStartCode @ b # bs,
                           is_keyframe = (b AND 0x1f = 5 \<or> has_idr a)\<rparr>]
      else delivered a)"
    by (auto simp add: emit_access_unit_def isVclNal_def isIdrNal_def Let_def)
  show "access_unit (emit_access_unit True (b # bs) (isVclNal (b # bs)) a) =
     (if b AND 0x1f = 1 \<or> b AND 0x1f = 5 then [] else access_unit a @ kStartCode @ b # bs)"
    by (auto simp add: emit_access_unit_def isVclNal_def Let_def)
  show "[] \<notin> set (loop_nals framing fd)"
    by (rule loop_nals_nonempty)
  show "map data (snd (loop True framing (Some fd) True)) =
     map spec_frame (spec_groups [] (loop_nals framing fd))"
    by (simp add: loop_delivered spec_au_def comp_def)
  show "concat (spec_groups [] (loop_nals framing fd)) @ spec_pending [] (loop_nals framing fd) =
     loop_nals framing fd"
    using spec_groups_partition [of "[]"] by simp
  show "list_all (\<lambda>g. g \<noteq> [] \<and> spec_is_vcl (last g) \<and> \<not> list_ex spec_is_vcl (butlast g))
     (spec_groups [] (loop_nals framing fd))"
    by (rule spec_groups_shape) simp
  show "\<not> list_ex spec_is_vcl (spec_pending [] (loop_nals framing fd))"
    by (rule spec_pending_no_vcl) simp
qed

theorem emission_exactly_at_vcl_nals_witness:
  "map data (snd (loop True Avcc (Some avcc_example) True)) =
     [[0, 0, 0, 1, 0x67, 0x42, 0, 0, 0, 1, 0x65, 0x88], [0, 0, 0, 1, 0x41]] \<and>
   loop_nals Avcc avcc_example = [[0x67, 0x42], [0x65, 0x88], [0x41], [0x68]] \<and>
   spec_groups [] (loop_nals Avcc avcc_example) = [[[0x67, 0x42], [0x65, 0x88]], [[0x41]]] \<and>
   spec_pending [] (loop_nals Avcc avcc_example) = [[0x68]]"
proof -
  have g: "spec_groups [] (loop_nals Avcc avcc_example) = [[[0x67, 0x42], [0x65, 0x88]], [[0x41]]]"
    and p: "spec_pending [] (loop_nals Avcc avcc_example) = [[0x68]]"
    by (simp_all add: avcc_example_nals spec_eval)
  from emission_exactly_at_vcl_nals [of 0 "[]" assembler0 Avcc avcc_example]
  have "map data (snd (loop True Avcc (Some avcc_example) True)) =
      map spec_frame (spec_groups [] (loop_nals Avcc avcc_example))"
    by simp
  then have "map data (snd (loop True Avcc (Some avcc_example) True)) =
     [[0, 0, 0, 1, 0x67, 0x42, 0, 0, 0, 1, 0x65, 0x88], [0, 0, 0, 1, 0x41]]"
    by (simp add: g spec_eval)
  with avcc_example_nals g p show ?thesis
    by (intro conjI)
qed

subsection \<open>C2: chunking invariance of the Annex-B parser\<close>

text \<open>
  Claim C2. For every finite Annex-B byte stream and every way of splitting it into
  successive non-empty chunks, the worker hands the same access units (bytes, keyframe
  flags, order) to the callback as when the whole stream arrives as one chunk. The
  second conjunct says the same of the loop body iterated over the chunks: buffer and
  captured state agree, whatever the closure \<open>emit\<close> is.
\<close>

theorem annexb_chunking_invariance:
  "[] \<notin> set chunks \<Longrightarrow>
   loop cb AnnexB (Some (map Data chunks)) True = loop cb AnnexB (Some [Data (concat chunks)]) True \<and>
   fold (annexb_chunk emit) chunks ([], a) = annexb_chunk emit (concat chunks) ([], a)"
proof -
  assume ne: "[] \<notin> set chunks"
  then have sb: "sock_bytes (map Data chunks) = concat chunks"
    by (induction chunks) auto
  have sb1: "sock_bytes [Data (concat chunks)] = concat chunks"
    by simp
  have "annexb_loop (emit_access_unit cb) (map Data chunks) True ([], assembler0) =
      annexb_loop (emit_access_unit cb) [Data (concat chunks)] True ([], assembler0)"
    unfolding annexb_loop_bytes sb sb1 ..
  then have 1: "loop cb AnnexB (Some (map Data chunks)) True =
      loop cb AnnexB (Some [Data (concat chunks)]) True"
    by (simp add: loop_def)
  have e: "annexb_chunk emit [] ([], a) = ([], a)"
    by (simp add: annexb_chunk_eq annexb_parse_None findStartCode_None)
  have 2: "fold (annexb_chunk emit) chunks ([], a) = annexb_chunk emit (concat chunks) ([], a)"
    using fold_annexb_chunk [of emit chunks "[]" "([], a)"] by (simp add: e)
  from 1 2 show ?thesis ..
qed

theorem annexb_chunking_invariance_witness:
  "[] \<notin> set [[0, 0], [0, 1, 0x67], [0x42, 0, 0], [1, 0x65, 0x88, 0], [0, 1, 9 :: byte]] \<and>
   loop True AnnexB (Some (map Data [[0, 0], [0, 1, 0x67], [0x42, 0, 0], [1, 0x65, 0x88, 0], [0, 1, 9]])) True =
     loop True AnnexB (Some [Data (concat [[0, 0], [0, 1, 0x67], [0x42, 0, 0], [1, 0x65, 0x88, 0], [0, 1, 9]])]) True \<and>
   loop True AnnexB (Some [Data (concat [[0, 0], [0, 1, 0x67], [0x42, 0, 0], [1, 0x65, 0x88, 0], [0, 1, 9]])]) True =
     (False, [\<lparr>data = [0, 0, 0, 1, 0x67, 0x42, 0, 0, 0, 1, 0x65, 0x88], is_keyframe = True\<rparr>])"
proof -
  have ne: "[] \<notin> set [[0, 0], [0, 1, 0x67], [0x42, 0, 0], [1, 0x65, 0x88, 0], [0, 1, 9 :: byte]]"
    by simp
  have v: "loop True AnnexB (Some [Data (concat [[0, 0], [0, 1, 0x67], [0x42, 0, 0], [1, 0x65, 0x88, 0], [0, 1, 9]])]) True =
     (False, [\<lparr>data = [0, 0, 0, 1, 0x67, 0x42, 0, 0, 0, 1, 0x65, 0x88], is_keyframe = True\<rparr>])"
    by (simp add: worker_eval)
  from annexb_chunking_invariance [OF ne, of True] have
    "loop True AnnexB (Some (map Data [[0, 0], [0, 1, 0x67], [0x42, 0, 0], [1, 0x65, 0x88, 0], [0, 1, 9]])) True =
     loop True AnnexB (Some [Data (concat [[0, 0], [0, 1, 0x67], [0x42, 0, 0], [1, 0x65, 0x88, 0], [0, 1, 9]])]) True"
    by (rule conjunct1)
  with ne v show ?thesis
    by (intro conjI)
qed

subsection \<open>C3: validation of the AVCC length\<close>

text \<open>
  Claim C3. In AVCC mode the four bytes of the length are read as a big-endian unsigned
  number, however the socket cuts the stream into reads. A length of 0, or above 4 MiB,
  ends the loop with \<open>running_\<close> false and the captured state untouched (no unit is
  emitted for the record). A length \<open>L\<close> with \<open>0 < L \<le> 4 MiB\<close> whose payload arrives
  makes the loop hand exactly the next \<open>L\<close> bytes to the closure as one NAL unit and
  go on with the bytes after them.
\<close>

theorem avcc_length_validation:
  "sock_bytes fd = [b0, b1, b2, b3] @ rest \<Longrightarrow>
   len = unat b0 * 2 ^ 24 + unat b1 * 2 ^ 16 + unat b2 * 2 ^ 8 + unat b3 \<Longrightarrow>
   kMaxNalSize = 4 * 1024 * 1024 \<and>
   (if len = 0 \<or> kMaxNalSize < len then avcc_loop emit fd True a = (False, a)
    else if len \<le> length rest then
      (\<exists>fd'. sock_bytes fd' = drop len rest \<and>
         avcc_loop emit fd True a =
           avcc_loop emit fd' True (emit (take len rest) (isVclNal (take len rest)) a))
    else avcc_loop emit fd True a = (False, a))"
proof -
  assume sb: "sock_bytes fd = [b0, b1, b2, b3] @ rest"
    and len: "len = unat b0 * 2 ^ 24 + unat b1 * 2 ^ 16 + unat b2 * 2 ^ 8 + unat b3"
  from len have l: "unat (be32 [b0, b1, b2, b3]) = len"
    by (simp add: be32_unat)
  have h: "length [b0, b1, b2, b3] = 4" by simp
  have nals: "spec_avcc_nals (b0 # b1 # b2 # b3 # rest) =
      (if len = 0 \<or> kMaxNalSize < len then []
       else if length rest < len then []
       else take len rest # spec_avcc_nals (drop len rest))"
    using spec_avcc_nals_header [OF h, of rest] by (simp add: l)
  have k: "kMaxNalSize = 4 * 1024 * 1024"
    by (simp add: kMaxNalSize_def)
  show ?thesis
  proof (cases "len = 0 \<or> kMaxNalSize < len")
    case True
    then show ?thesis
      using k by (simp add: avcc_loop_records sb nals)
  next
    case ok: False
    show ?thesis
    proof (cases "len \<le> length rest")
      case False
      with ok k show ?thesis
        by (simp add: avcc_loop_records sb nals)
    next
      case True
      define fd' where "fd' = (if drop len rest = [] then [] else [Data (drop len rest)])"
      have 1: "sock_bytes fd' = drop len rest"
        by (simp add: fd'_def)
      have "avcc_loop emit fd True a =
          avcc_loop emit fd' True (emit (take len rest) (isVclNal (take len rest)) a)"
        using ok True by (simp add: avcc_loop_records sb nals 1)
      with 1 have "\<exists>fd'. sock_bytes fd' = drop len rest \<and>
         avcc_loop emit fd True a =
           avcc_loop emit fd' True (emit (take len rest) (isVclNal (take len rest)) a)"
        by blast
      with ok True k show ?thesis
        by simp
    qed
  qed
qed

theorem avcc_length_validation_witness:
  "avcc_loop (emit_access_unit True) [Data [0, 0, 0], Data [0, 0x65]] True assembler0 =
     (False, assembler0) \<and>
   avcc_loop (emit_access_unit True) [Data [0, 0x40, 0, 1, 0x65]] True assembler0 =
     (False, assembler0) \<and>
   (\<exists>fd'. sock_bytes fd' = [0, 0, 0, 2, 0x65, 0x88, 0, 0, 0, 1, 0x41, 0, 0, 0, 1, 0x68] \<and>
      avcc_loop (emit_access_unit True) avcc_example True assembler0 =
        avcc_loop (emit_access_unit True) fd' True
          (emit_access_unit True [0x67, 0x42] (isVclNal [0x67, 0x42]) assembler0))"
proof (intro conjI)
  show "avcc_loop (emit_access_unit True) [Data [0, 0, 0], Data [0, 0x65]] True assembler0 =
      (False, assembler0)"
    using avcc_length_validation [of "[Data [0, 0, 0], Data [0, 0x65]]" 0 0 0 0 "[0x65]" 0
        "emit_access_unit True" assembler0]
    by simp
  show "avcc_loop (emit_access_unit True) [Data [0, 0x40, 0, 1, 0x65]] True assembler0 =
      (False, assembler0)"
    using avcc_length_validation [of "[Data [0, 0x40, 0, 1, 0x65]]" 0 "0x40" 0 1 "[0x65]" 4194305
        "emit_access_unit True" assembler0]
    by (simp add: kMaxNalSize_def)
  show "\<exists>fd'. sock_bytes fd' = [0, 0, 0, 2, 0x65, 0x88, 0, 0, 0, 1, 0x41, 0, 0, 0, 1, 0x68] \<and>
      avcc_loop (emit_access_unit True) avcc_example True assembler0 =
        avcc_loop (emit_access_unit True) fd' True
          (emit_access_unit True [0x67, 0x42] (isVclNal [0x67, 0x42]) assembler0)"
    using avcc_length_validation [of avcc_example 0 0 0 2
        "[0x67, 0x42, 0, 0, 0, 2, 0x65, 0x88, 0, 0, 0, 1, 0x41, 0, 0, 0, 1, 0x68]" 2
        "emit_access_unit True" assembler0]
    by (simp add: avcc_example_def kMaxNalSize_def)
qed

subsection \<open>C4: the keyframe flag\<close>

text \<open>
  Claim C4. The keyframe flag of every access unit delivered by the worker, in either
  framing, is true exactly when one of the NAL units of its group has type 5. The flag
  kept by the closure is set by a type-5 NAL wherever it comes in the unit, and is
  reset when a unit is emitted.
\<close>

theorem keyframe_flag_iff_idr_nal:
  "map is_keyframe (snd (loop True framing (Some fd) True)) =
     map (list_ex (\<lambda>nal. nal_type nal = 5)) (spec_groups [] (loop_nals framing fd)) \<and>
   map data (snd (loop True framing (Some fd) True)) =
     map spec_frame (spec_groups [] (loop_nals framing fd)) \<and>
   has_idr (emit_access_unit cb nal False a) = (isIdrNal nal \<or> has_idr a) \<and>
   has_idr (emit_access_unit cb nal True a) = False \<and>
   delivered (emit_access_unit True nal True a) =
     delivered a @ [\<lparr>data = access_unit a @ kStartCode @ nal,
                      is_keyframe = (isIdrNal nal \<or> has_idr a)\<rparr>] \<and>
   isIdrNal (b # bs) = (b AND 0x1f = 5) \<and>
   [] \<notin> set (loop_nals framing fd)"
proof (intro conjI)
  show "[] \<notin> set (loop_nals framing fd)"
    by (rule loop_nals_nonempty)
  have "spec_is_idr = (\<lambda>nal. nal_type nal = 5)"
    by (simp add: spec_is_idr_def fun_eq_iff)
  then show "map is_keyframe (snd (loop True framing (Some fd) True)) =
     map (list_ex (\<lambda>nal. nal_type nal = 5)) (spec_groups [] (loop_nals framing fd))"
    by (simp add: loop_delivered spec_au_def comp_def)
  show "map data (snd (loop True framing (Some fd) True)) =
     map spec_frame (spec_groups [] (loop_nals framing fd))"
    by (simp add: loop_delivered spec_au_def comp_def)
  show "has_idr (emit_access_unit cb nal False a) = (isIdrNal nal \<or> has_idr a)"
    by (simp add: emit_access_unit_def Let_def)
  show "has_idr (emit_access_unit cb nal True a) = False"
    by (simp add: emit_access_unit_def Let_def)
  show "delivered (emit_access_unit True nal True a) =
     delivered a @ [\<lparr>data = access_unit a @ kStartCode @ nal,
                      is_keyframe = (isIdrNal nal \<or> has_idr a)\<rparr>]"
    by (simp add: emit_access_unit_def Let_def)
  show "isIdrNal (b # bs) = (b AND 0x1f = 5)"
    by (simp add: isIdrNal_def)
qed

theorem keyframe_flag_iff_idr_nal_witness:
  "map is_keyframe (snd (loop True Avcc (Some avcc_example) True)) = [True, False] \<and>
   spec_groups [] (loop_nals Avcc avcc_example) = [[[0x67, 0x42], [0x65, 0x88]], [[0x41]]]"
proof -
  have g: "spec_groups [] (loop_nals Avcc avcc_example) = [[[0x67, 0x42], [0x65, 0x88]], [[0x41]]]"
    by (simp add: avcc_example_nals spec_eval)
  from keyframe_flag_iff_idr_nal [of Avcc avcc_example True "[]" assembler0 0 "[]"]
  have "map is_keyframe (snd (loop True Avcc (Some avcc_example) True)) =
     map (list_ex (\<lambda>nal. nal_type nal = 5)) (spec_groups [] (loop_nals Avcc avcc_example))"
    by simp
  then have "map is_keyframe (snd (loop True Avcc (Some avcc_example) True)) = [True, False]"
    by (simp add: g spec_eval)
  with g show ?thesis
    by (intro conjI)
qed

subsection \<open>C5: SPS and IDR in an Annex-B stream\<close>

text \<open>
  Claim C5 says that the bytes \<open>00 00 00 01 SPS 00 00 01 IDR\<close> yield one access unit.
  The scan emits a NAL only when the start code after it has been found, so with
  nothing after the IDR bytes the IDR unit stays in the buffer and no access unit is
  delivered.
\<close>

theorem sps_idr_without_next_start_code_counterexample:
  "snd (loop True AnnexB (Some [Data [0, 0, 0, 1, 0x67, 0x42, 0, 0, 1, 0x65, 0x88]]) True) = []"
  by (simp add: worker_eval)

text \<open>
  Claim C5, amended. Let SPS (type 7) and IDR (type 5) be NAL units as they stand in a
  byte stream: not empty, not ending in a zero byte, and without \<open>00 00 00\<close> or
  \<open>00 00 01\<close> inside. The bytes \<open>00 00 00 01 SPS 00 00 01 IDR\<close> followed by one more
  start code and one byte yield exactly one access unit, \<open>00 00 00 01 SPS 00 00 00 01 IDR\<close>,
  with the keyframe flag set; without the following start code nothing is delivered.
\<close>

theorem sps_idr_then_start_code_yields_one_keyframe_unit:
  "clean_nal sps \<Longrightarrow> nal_type sps = 7 \<Longrightarrow> clean_nal idr \<Longrightarrow> nal_type idr = 5 \<Longrightarrow>
   tail = [0, 0, 1, x] \<or> tail = [0, 0, 0, 1, x] \<Longrightarrow>
   (sock_bytes fd = [0, 0, 0, 1] @ sps @ [0, 0, 1] @ idr @ tail \<longrightarrow>
      loop True AnnexB (Some fd) True =
        (False, [\<lparr>data = [0, 0, 0, 1] @ sps @ [0, 0, 0, 1] @ idr, is_keyframe = True\<rparr>])) \<and>
   (sock_bytes fd = [0, 0, 0, 1] @ sps @ [0, 0, 1] @ idr \<longrightarrow>
      loop True AnnexB (Some fd) True = (False, []))"
proof (intro conjI impI)
  assume sps: "clean_nal sps" and t7: "nal_type sps = 7"
    and idr: "clean_nal idr" and t5: "nal_type idr = 5"
    and tail: "tail = [0, 0, 1, x] \<or> tail = [0, 0, 0, 1, x]"
  have v: "\<not> spec_is_vcl sps" "spec_is_vcl idr" "spec_is_idr idr"
    using t7 t5 by (simp_all add: spec_is_vcl_def spec_is_idr_def)
  {
    assume "sock_bytes fd = [0, 0, 0, 1] @ sps @ [0, 0, 1] @ idr @ tail"
    then have "loop_nals AnnexB fd = [sps, idr]"
      using annexb_nals_two_units [OF sps idr tail] by (simp add: loop_nals_def)
    then show "loop True AnnexB (Some fd) True =
        (False, [\<lparr>data = [0, 0, 0, 1] @ sps @ [0, 0, 0, 1] @ idr, is_keyframe = True\<rparr>])"
      using v by (simp add: loop_delivered spec_au_def spec_frame_def kStartCode_def)
  }
  {
    assume "sock_bytes fd = [0, 0, 0, 1] @ sps @ [0, 0, 1] @ idr"
    then have "loop_nals AnnexB fd = [sps]"
      using annexb_nals_last_unit_pending [OF sps idr] by (simp add: loop_nals_def)
    then show "loop True AnnexB (Some fd) True = (False, [])"
      using v by (simp add: loop_delivered)
  }
qed

theorem sps_idr_then_start_code_yields_one_keyframe_unit_witness:
  "clean_nal [0x67, 0x42] \<and> nal_type [0x67, 0x42] = 7 \<and>
   clean_nal [0x65, 0x88] \<and> nal_type [0x65, 0x88] = 5 \<and>
   sock_bytes [Data [0, 0, 0, 1, 0x67], Data [0x42, 0, 0, 1, 0x65, 0x88, 0, 0], Data [1, 9]] =
     [0, 0, 0, 1] @ [0x67, 0x42] @ [0, 0, 1] @ [0x65, 0x88] @ [0, 0, 1, 9] \<and>
   loop True AnnexB
       (Some [Data [0, 0, 0, 1, 0x67], Data [0x42, 0, 0, 1, 0x65, 0x88, 0, 0], Data [1, 9]]) True =
     (False, [\<lparr>data = [0, 0, 0, 1] @ [0x67, 0x42] @ [0, 0, 0, 1] @ [0x65, 0x88],
               is_keyframe = True\<rparr>])"
proof -
  have 1: "clean_nal [0x67, 0x42]" and 2: "nal_type [0x67, 0x42] = 7"
    and 3: "clean_nal [0x65, 0x88]" and 4: "nal_type [0x65, 0x88] = 5"
    by (simp_all add: clean_nal_def nal_type_def)
  have 5: "[0, 0, 1, 9] = [0, 0, 1, 9] \<or> [0, 0, 1, 9] = [0, 0, 0, 1, 9 :: byte]"
    by simp
  have 6: "sock_bytes [Data [0, 0, 0, 1, 0x67], Data [0x42, 0, 0, 1, 0x65, 0x88, 0, 0], Data [1, 9]] =
     [0, 0, 0, 1] @ [0x67, 0x42] @ [0, 0, 1] @ [0x65, 0x88] @ [0, 0, 1, 9]"
    by simp
  from sps_idr_then_start_code_yields_one_keyframe_unit [OF 1 2 3 4 5] 6
  have "loop True AnnexB
       (Some [Data [0, 0, 0, 1, 0x67], Data [0x42, 0, 0, 1, 0x65, 0x88, 0, 0], Data [1, 9]]) True =
     (False, [\<lparr>data = [0, 0, 0, 1] @ [0x67, 0x42] @ [0, 0, 0, 1] @ [0x65, 0x88],
               is_keyframe = True\<rparr>])"
    by blast
  with 1 2 3 4 6 show ?thesis
    by (intro conjI)
qed

subsection \<open>C6: the shape of an access unit\<close>

text \<open>
  Claim C6. Every access unit handed to the callback, in either framing, is not empty
  and begins with \<open>00 00 00 01\<close>; it is the concatenation, in order, of one or more
  non-empty NAL units, each after that start code.
\<close>

theorem access_units_start_with_start_code:
  "list_all (\<lambda>au. data au \<noteq> [] \<and> take 4 (data au) = kStartCode)
     (snd (loop cb framing fd_opt r)) \<and>
   kStartCode = [0, 0, 0, 1] \<and>
   map data (snd (loop True framing (Some fd) True)) =
     map spec_frame (spec_groups [] (loop_nals framing fd)) \<and>
   list_all (\<lambda>g. g \<noteq> [] \<and> [] \<notin> set g) (spec_groups [] (loop_nals framing fd)) \<and>
   spec_frame (nal # nals) = [0, 0, 0, 1] @ nal @ spec_frame nals \<and> spec_frame [] = []"
proof (intro conjI)
  have groups: "list_all (\<lambda>g. g \<noteq> [] \<and> [] \<notin> set g) (spec_groups [] (loop_nals framing x))" for x
    by (rule spec_groups_nonempty) (simp_all add: loop_nals_nonempty)
  show "list_all (\<lambda>au. data au \<noteq> [] \<and> take 4 (data au) = kStartCode)
     (snd (loop cb framing fd_opt r))"
  proof (cases fd_opt)
    case None
    then show ?thesis by (simp add: loop_no_socket)
  next
    case (Some x)
    have "list_all (\<lambda>au. data au \<noteq> [] \<and> take 4 (data au) = kStartCode)
        (map spec_au (spec_groups [] (loop_nals framing x)))"
      using groups [of x] spec_frame_start
      by (auto simp add: list_all_iff spec_au_def)
    with Some show ?thesis
      by (simp add: loop_result)
  qed
  show "kStartCode = [0, 0, 0, 1]"
    by (simp add: kStartCode_def)
  show "map data (snd (loop True framing (Some fd) True)) =
     map spec_frame (spec_groups [] (loop_nals framing fd))"
    by (simp add: loop_delivered spec_au_def comp_def)
  show "list_all (\<lambda>g. g \<noteq> [] \<and> [] \<notin> set g) (spec_groups [] (loop_nals framing fd))"
    by (rule groups)
  show "spec_frame (nal # nals) = [0, 0, 0, 1] @ nal @ spec_frame nals"
    by (simp add: spec_frame_def kStartCode_def)
  show "spec_frame [] = []"
    by (simp add: spec_frame_def)
qed

theorem access_units_start_with_start_code_witness:
  "snd (loop True Avcc (Some avcc_example) True) =
     [\<lparr>data = [0, 0, 0, 1, 0x67, 0x42, 0, 0, 0, 1, 0x65, 0x88], is_keyframe = True\<rparr>,
      \<lparr>data = [0, 0, 0, 1, 0x41], is_keyframe = False\<rparr>] \<and>
   list_all (\<lambda>au. data au \<noteq> [] \<and> take 4 (data au) = kStartCode)
     (snd (loop True Avcc (Some avcc_example) True))"
proof -
  have "snd (loop True Avcc (Some avcc_example) True) =
     [\<lparr>data = [0, 0, 0, 1, 0x67, 0x42, 0, 0, 0, 1, 0x65, 0x88], is_keyframe = True\<rparr>,
      \<lparr>data = [0, 0, 0, 1, 0x41], is_keyframe = False\<rparr>]"
    by (simp add: avcc_example_def worker_eval)
  moreover from access_units_start_with_start_code [of True Avcc "Some avcc_example" True]
  have "list_all (\<lambda>au. data au \<noteq> [] \<and> take 4 (data au) = kStartCode)
     (snd (loop True Avcc (Some avcc_example) True))"
    by (rule conjunct1)
  ultimately show ?thesis
    by (intro conjI)
qed

subsection \<open>C7: a failing read\<close>

text \<open>
  Claim C7. The worker always leaves \<open>running_\<close> false. When a read fails (an error, or
  the end of the stream), in either framing, the loop is left with the captured state
  as the last successful read left it, and nothing that follows the failure in the
  script matters. In AVCC mode the state at the exit is the one reached by the complete
  valid records read before the failure. What \<open>loop\<close> has handed to the callback when
  it returns is what the closure delivered inside the inner loop, no more: the access
  units of the groups closed by a VCL unit. The NAL units after the last VCL unit
  (\<open>spec_pending\<close>) are in the buffer \<open>access_unit\<close> at the exit, re-framed, and in no
  delivered unit; in particular a stream without a VCL unit delivers nothing, whatever
  is pending.
\<close>

theorem read_failure_discards_pending_unit:
  "fst (loop cb framing fd_opt r) = False \<and>
   loop cb framing (Some (pre @ Err # post)) r = loop cb framing (Some pre) r \<and>
   loop cb framing (Some (pre @ Data [] # post)) r = loop cb framing (Some pre) r \<and>
   ([] \<notin> set chunks \<longrightarrow>
      annexb_loop emit (map Data chunks @ Err # post) True s =
        (False, fold (annexb_chunk emit) chunks s) \<and>
      annexb_loop emit (map Data chunks @ Data [] # post) True s =
        (False, fold (annexb_chunk emit) chunks s) \<and>
      annexb_loop emit (map Data chunks) True s =
        (False, fold (annexb_chunk emit) chunks s)) \<and>
   (length (sock_bytes fd) < 4 \<longrightarrow> avcc_loop emit fd True a = (False, a)) \<and>
   (sock_bytes fd = hdr @ rest \<and> length hdr = 4 \<and> length rest < unat (be32 hdr) \<longrightarrow>
      avcc_loop emit fd True a = (False, a)) \<and>
   avcc_loop emit fd True a = (False, feed_nals emit (spec_avcc_nals (sock_bytes fd)) a) \<and>
   loop cb AnnexB (Some fd) r =
     (False, delivered (snd (snd (annexb_loop (emit_access_unit cb) fd r ([], assembler0))))) \<and>
   loop cb Avcc (Some fd) r =
     (False, delivered (snd (avcc_loop (emit_access_unit cb) fd r assembler0))) \<and>
   ([] \<notin> set chunks \<longrightarrow>
      loop cb AnnexB (Some (map Data chunks @ Err # post)) True =
        (False, delivered (snd (fold (annexb_chunk (emit_access_unit cb)) chunks ([], assembler0)))) \<and>
      loop cb AnnexB (Some (map Data chunks @ Data [] # post)) True =
        (False, delivered (snd (fold (annexb_chunk (emit_access_unit cb)) chunks ([], assembler0)))) \<and>
      loop cb AnnexB (Some (map Data chunks)) True =
        (False, delivered (snd (fold (annexb_chunk (emit_access_unit cb)) chunks ([], assembler0))))) \<and>
   snd (snd (annexb_loop (emit_access_unit cb) fd True ([], assembler0))) =
     \<lparr>access_unit = spec_frame (spec_pending [] (loop_nals AnnexB fd)),
      has_idr = list_ex spec_is_idr (spec_pending [] (loop_nals AnnexB fd)),
      delivered = (if cb then map spec_au (spec_groups [] (loop_nals AnnexB fd)) else [])\<rparr> \<and>
   snd (avcc_loop (emit_access_unit cb) fd True assembler0) =
     \<lparr>access_unit = spec_frame (spec_pending [] (loop_nals Avcc fd)),
      has_idr = list_ex spec_is_idr (spec_pending [] (loop_nals Avcc fd)),
      delivered = (if cb then map spec_au (spec_groups [] (loop_nals Avcc fd)) else [])\<rparr> \<and>
   loop cb framing (Some fd) r =
     (False, if r \<and> cb then map spec_au (spec_groups [] (loop_nals framing fd)) else []) \<and>
   concat (spec_groups [] (loop_nals framing fd)) @ spec_pending [] (loop_nals framing fd) =
     loop_nals framing fd \<and>
   (\<not> list_ex spec_is_vcl (loop_nals framing fd) \<longrightarrow>
      spec_pending [] (loop_nals framing fd) = loop_nals framing fd \<and>
      loop cb framing (Some fd) r = (False, []))"
proof (intro conjI impI)
  show "avcc_loop emit fd True a = (False, feed_nals emit (spec_avcc_nals (sock_bytes fd)) a)"
    by (rule avcc_loop_records)
  show "fst (loop cb framing fd_opt r) = False"
    by (cases fd_opt) (simp_all add: loop_no_socket loop_result)
  show "loop cb framing (Some (pre @ Err # post)) r = loop cb framing (Some pre) r"
    by (simp add: loop_result loop_nals_def sock_bytes_fail)
  show "loop cb framing (Some (pre @ Data [] # post)) r = loop cb framing (Some pre) r"
    by (simp add: loop_result loop_nals_def sock_bytes_fail)
  show "loop cb AnnexB (Some fd) r =
     (False, delivered (snd (snd (annexb_loop (emit_access_unit cb) fd r ([], assembler0)))))"
    by (rule loop_inner)
  show "loop cb Avcc (Some fd) r =
     (False, delivered (snd (avcc_loop (emit_access_unit cb) fd r assembler0)))"
    by (rule loop_inner)
  show "snd (snd (annexb_loop (emit_access_unit cb) fd True ([], assembler0))) =
     \<lparr>access_unit = spec_frame (spec_pending [] (loop_nals AnnexB fd)),
      has_idr = list_ex spec_is_idr (spec_pending [] (loop_nals AnnexB fd)),
      delivered = (if cb then map spec_au (spec_groups [] (loop_nals AnnexB fd)) else [])\<rparr>"
    by (rule annexb_loop_state)
  show "snd (avcc_loop (emit_access_unit cb) fd True assembler0) =
     \<lparr>access_unit = spec_frame (spec_pending [] (loop_nals Avcc fd)),
      has_idr = list_ex spec_is_idr (spec_pending [] (loop_nals Avcc fd)),
      delivered = (if cb then map spec_au (spec_groups [] (loop_nals Avcc fd)) else [])\<rparr>"
    by (rule avcc_loop_state)
  show "loop cb framing (Some fd) r =
     (False, if r \<and> cb then map spec_au (spec_groups [] (loop_nals framing fd)) else [])"
    by (rule loop_result)
  show "concat (spec_groups [] (loop_nals framing fd)) @ spec_pending [] (loop_nals framing fd) =
     loop_nals framing fd"
    by (simp add: spec_groups_partition)
next
  assume "[] \<notin> set chunks"
  then show "annexb_loop emit (map Data chunks @ Err # post) True s =
      (False, fold (annexb_chunk emit) chunks s)"
    by (simp add: annexb_loop_chunks sock_bytes_chunks)
next
  assume "[] \<notin> set chunks"
  then show "annexb_loop emit (map Data chunks @ Data [] # post) True s =
      (False, fold (annexb_chunk emit) chunks s)"
    by (simp add: annexb_loop_chunks sock_bytes_chunks)
next
  assume "[] \<notin> set chunks"
  then show "annexb_loop emit (map Data chunks) True s =
      (False, fold (annexb_chunk emit) chunks s)"
    by (simp add: annexb_loop_chunks sock_bytes_chunks)
next
  assume "length (sock_bytes fd) < 4"
  then show "avcc_loop emit fd True a = (False, a)"
    by (simp add: avcc_loop_records spec_avcc_nals_short)
next
  assume "sock_bytes fd = hdr @ rest \<and> length hdr = 4 \<and> length rest < unat (be32 hdr)"
  then show "avcc_loop emit fd True a = (False, a)"
    by (simp add: avcc_loop_records spec_avcc_nals_header)
next
  assume "[] \<notin> set chunks"
  then show "loop cb AnnexB (Some (map Data chunks @ Err # post)) True =
      (False, delivered (snd (fold (annexb_chunk (emit_access_unit cb)) chunks ([], assembler0))))"
    by (simp add: loop_inner annexb_loop_chunks sock_bytes_chunks)
next
  assume "[] \<notin> set chunks"
  then show "loop cb AnnexB (Some (map Data chunks @ Data [] # post)) True =
      (False, delivered (snd (fold (annexb_chunk (emit_access_unit cb)) chunks ([], assembler0))))"
    by (simp add: loop_inner annexb_loop_chunks sock_bytes_chunks)
next
  assume "[] \<notin> set chunks"
  then show "loop cb AnnexB (Some (map Data chunks)) True =
      (False, delivered (snd (fold (annexb_chunk (emit_access_unit cb)) chunks ([], assembler0))))"
    by (simp add: loop_inner annexb_loop_chunks sock_bytes_chunks)
next
  assume n: "\<not> list_ex spec_is_vcl (loop_nals framing fd)"
  then have g: "spec_groups [] (loop_nals framing fd) = []"
    by (rule spec_groups_no_vcl)
  from spec_groups_partition [of "[]" "loop_nals framing fd"] g
  show "spec_pending [] (loop_nals framing fd) = loop_nals framing fd"
    by simp
  from g show "loop cb framing (Some fd) r = (False, [])"
    by (simp add: loop_result)
qed

theorem read_failure_discards_pending_unit_witness:
  "[] \<notin> set [[0, 0, 0, 1, 0x67], [0x42, 0, 0, 1, 0x65 :: byte]] \<and>
   annexb_loop (emit_access_unit True)
       (map Data [[0, 0, 0, 1, 0x67], [0x42, 0, 0, 1, 0x65]] @ Err # [Data [0x88, 0, 0, 1, 9]])
       True ([], assembler0) =
     (False, [0, 0, 1, 0x65],
      \<lparr>access_unit = [0, 0, 0, 1, 0x67, 0x42], has_idr = False, delivered = []\<rparr>) \<and>
   loop True AnnexB
       (Some (map Data [[0, 0, 0, 1, 0x67], [0x42, 0, 0, 1, 0x65]] @ Err # [Data [0x88, 0, 0, 1, 9]]))
       True = (False, []) \<and>
   length (sock_bytes [Data [0, 0], Data [0]]) < 4 \<and>
   avcc_loop (emit_access_unit True) [Data [0, 0], Data [0]] True assembler0 = (False, assembler0) \<and>
   sock_bytes [Data [0, 0, 0, 2, 0x67]] = [0, 0, 0, 2] @ [0x67] \<and>
   avcc_loop (emit_access_unit True) [Data [0, 0, 0, 2, 0x67]] True assembler0 = (False, assembler0) \<and>
   loop True Avcc (Some [Data [0, 0, 0, 2, 0x67]]) True = (False, []) \<and>
   avcc_loop (emit_access_unit True)
       [Data [0, 0, 0, 2, 0x67, 0x42, 0, 0, 0, 2, 0x65], Err, Data [0x88]] True assembler0 =
     (False, \<lparr>access_unit = [0, 0, 0, 1, 0x67, 0x42], has_idr = False, delivered = []\<rparr>) \<and>
   \<not> list_ex spec_is_vcl
       (loop_nals Avcc [Data [0, 0, 0, 2, 0x67, 0x42, 0, 0, 0, 2, 0x65], Err, Data [0x88]]) \<and>
   spec_pending []
       (loop_nals Avcc [Data [0, 0, 0, 2, 0x67, 0x42, 0, 0, 0, 2, 0x65], Err, Data [0x88]]) =
     [[0x67, 0x42]] \<and>
   loop True Avcc (Some [Data [0, 0, 0, 2, 0x67, 0x42, 0, 0, 0, 2, 0x65], Err, Data [0x88]]) True =
     (False, []) \<and>
   spec_pending [] (loop_nals Avcc (avcc_example @ [Err])) = [[0x68]] \<and>
   access_unit (snd (avcc_loop (emit_access_unit True) (avcc_example @ [Err]) True assembler0)) =
     [0, 0, 0, 1, 0x68] \<and>
   loop True Avcc (Some (avcc_example @ [Err])) True =
     (False,
      [\<lparr>data = [0, 0, 0, 1, 0x67, 0x42, 0, 0, 0, 1, 0x65, 0x88], is_keyframe = True\<rparr>,
       \<lparr>data = [0, 0, 0, 1, 0x41], is_keyframe = False\<rparr>])"
proof -
  let ?chunks = "[[0, 0, 0, 1, 0x67], [0x42, 0, 0, 1, 0x65 :: byte]]"
  let ?post = "[Data [0x88, 0, 0, 1, 9]]"
  let ?fdB = "[Data [0, 0, 0, 2, 0x67, 0x42, 0, 0, 0, 2, 0x65], Err, Data [0x88]]"
  let ?fdE = "avcc_example @ [Err]"
  note t = read_failure_discards_pending_unit
  have ne: "[] \<notin> set ?chunks"
    by simp
  have f: "fold (annexb_chunk (emit_access_unit True)) ?chunks ([], assembler0) =
      ([0, 0, 1, 0x65],
       \<lparr>access_unit = [0, 0, 0, 1, 0x67, 0x42], has_idr = False, delivered = []\<rparr>)"
    by (simp add: worker_eval)
  have a: "annexb_loop (emit_access_unit True)
       (map Data ?chunks @ Err # ?post) True ([], assembler0) =
     (False, fold (annexb_chunk (emit_access_unit True)) ?chunks ([], assembler0))"
    by (rule t [where chunks = ?chunks and emit = "emit_access_unit True"
          and post = ?post and s = "([], assembler0)", THEN conjunct2, THEN conjunct2, THEN conjunct2, THEN conjunct1, THEN mp, OF ne, THEN conjunct1])
  have "loop True AnnexB (Some (map Data ?chunks @ Err # ?post)) True =
      (False, delivered (snd (fold (annexb_chunk (emit_access_unit True)) ?chunks ([], assembler0))))"
    by (rule t [where chunks = ?chunks and cb = True and post = ?post, THEN conjunct2, THEN conjunct2, THEN conjunct2, THEN conjunct2, THEN conjunct2, THEN conjunct2, THEN conjunct2, THEN conjunct2, THEN conjunct2, THEN conjunct1, THEN mp, OF ne,
          THEN conjunct1])
  then have a2: "loop True AnnexB (Some (map Data ?chunks @ Err # ?post)) True = (False, [])"
    by (simp only: f snd_conv assembler.select_convs)
  have s1: "length (sock_bytes [Data [0, 0], Data [0 :: byte]]) < 4"
    by simp
  have b: "avcc_loop (emit_access_unit True) [Data [0, 0], Data [0]] True assembler0 =
      (False, assembler0)"
    by (rule t [where fd = "[Data [0, 0], Data [0]]" and emit = "emit_access_unit True"
          and a = assembler0, THEN conjunct2, THEN conjunct2, THEN conjunct2, THEN conjunct2, THEN conjunct1, THEN mp, OF s1])
  have s2: "sock_bytes [Data [0, 0, 0, 2, 0x67]] = [0, 0, 0, 2] @ [0x67] \<and>
      length [0, 0, 0, 2 :: byte] = 4 \<and> length [0x67 :: byte] < unat (be32 [0, 0, 0, 2])"
    by (simp add: be32_def)
  then have s2': "sock_bytes [Data [0, 0, 0, 2, 0x67]] = [0, 0, 0, 2] @ [0x67]"
    by (rule conjunct1)
  have c: "avcc_loop (emit_access_unit True) [Data [0, 0, 0, 2, 0x67]] True assembler0 =
      (False, assembler0)"
    by (rule t [where fd = "[Data [0, 0, 0, 2, 0x67]]" and emit = "emit_access_unit True"
          and a = assembler0 and hdr = "[0, 0, 0, 2]" and rest = "[0x67]", THEN conjunct2, THEN conjunct2, THEN conjunct2, THEN conjunct2, THEN conjunct2, THEN conjunct1, THEN mp, OF s2])
  have "loop True Avcc (Some [Data [0, 0, 0, 2, 0x67]]) True =
      (False, delivered (snd (avcc_loop (emit_access_unit True) [Data [0, 0, 0, 2, 0x67]] True
         assembler0)))"
    by (rule t [where fd = "[Data [0, 0, 0, 2, 0x67]]" and cb = True and r = True, THEN conjunct2, THEN conjunct2, THEN conjunct2, THEN conjunct2, THEN conjunct2, THEN conjunct2, THEN conjunct2, THEN conjunct2, THEN conjunct1])
  moreover have "delivered assembler0 = []"
    by (simp add: assembler0_def)
  ultimately have d: "loop True Avcc (Some [Data [0, 0, 0, 2, 0x67]]) True = (False, [])"
    by (simp only: c snd_conv)
  have e: "avcc_loop (emit_access_unit True) ?fdB True assembler0 =
      (False, \<lparr>access_unit = [0, 0, 0, 1, 0x67, 0x42], has_idr = False, delivered = []\<rparr>)"
    by (simp add: worker_eval)
  have nB: "loop_nals Avcc ?fdB = [[0x67, 0x42]]"
    by (simp add: loop_nals_def spec_avcc_nals.simps be32_def kMaxNalSize_def)
  then have nv: "\<not> list_ex spec_is_vcl (loop_nals Avcc ?fdB)"
    by (simp add: spec_eval)
  note tB = t [where framing = Avcc and fd = ?fdB and cb = True and r = True, THEN conjunct2, THEN conjunct2, THEN conjunct2, THEN conjunct2, THEN conjunct2, THEN conjunct2, THEN conjunct2, THEN conjunct2, THEN conjunct2, THEN conjunct2, THEN conjunct2, THEN conjunct2, THEN conjunct2, THEN conjunct2, THEN mp, OF nv]
  have p: "spec_pending [] (loop_nals Avcc ?fdB) = [[0x67, 0x42]]"
    using tB [THEN conjunct1] by (simp only: nB)
  have l: "loop True Avcc (Some ?fdB) True = (False, [])"
    by (rule tB [THEN conjunct2])
  have nE: "loop_nals Avcc ?fdE = [[0x67, 0x42], [0x65, 0x88], [0x41], [0x68]]"
    by (simp add: avcc_example_def loop_nals_def spec_avcc_nals.simps be32_def kMaxNalSize_def)
  then have pE: "spec_pending [] (loop_nals Avcc ?fdE) = [[0x68]]"
    by (simp add: spec_eval)
  have "snd (avcc_loop (emit_access_unit True) ?fdE True assembler0) =
     \<lparr>access_unit = spec_frame (spec_pending [] (loop_nals Avcc ?fdE)),
      has_idr = list_ex spec_is_idr (spec_pending [] (loop_nals Avcc ?fdE)),
      delivered = (if True then map spec_au (spec_groups [] (loop_nals Avcc ?fdE)) else [])\<rparr>"
    by (rule t [where fd = ?fdE and cb = True, THEN conjunct2, THEN conjunct2, THEN conjunct2, THEN conjunct2, THEN conjunct2, THEN conjunct2, THEN conjunct2, THEN conjunct2, THEN conjunct2, THEN conjunct2, THEN conjunct2, THEN conjunct1])
  then have uE: "access_unit (snd (avcc_loop (emit_access_unit True) ?fdE True assembler0)) =
      [0, 0, 0, 1, 0x68]"
    by (simp add: pE spec_eval)
  have "loop True Avcc (Some ?fdE) True =
     (False, if True \<and> True then map spec_au (spec_groups [] (loop_nals Avcc ?fdE)) else [])"
    by (rule t [where framing = Avcc and fd = ?fdE and cb = True and r = True, THEN conjunct2, THEN conjunct2, THEN conjunct2, THEN conjunct2, THEN conjunct2, THEN conjunct2, THEN conjunct2, THEN conjunct2, THEN conjunct2, THEN conjunct2, THEN conjunct2, THEN conjunct2, THEN conjunct1])
  then have dE: "loop True Avcc (Some ?fdE) True =
     (False,
      [\<lparr>data = [0, 0, 0, 1, 0x67, 0x42, 0, 0, 0, 1, 0x65, 0x88], is_keyframe = True\<rparr>,
       \<lparr>data = [0, 0, 0, 1, 0x41], is_keyframe = False\<rparr>])"
    by (simp add: nE spec_au_def spec_eval)
  from ne a [unfolded f] a2 s1 b s2' c d e nv p l pE uE dE show ?thesis
    by (intro conjI)
qed

subsection \<open>C8: connection failure\<close>

text \<open>
  Claim C8 says that after a failed address resolution or connect \<open>running()\<close> is never
  true after \<open>start()\<close>. The code sets \<open>running_\<close> in \<open>start()\<close>, before the worker tries to
  connect: the flag is true until the worker has seen the failure.
\<close>

theorem connect_failure_running_counterexample:
  "running (start new_source) \<and>
   loop True Avcc None (running (start new_source)) = (False, [])"
  by (simp add: running_def start_def new_source_def loop_def)

text \<open>
  Claim C8, amended. If address resolution or the connect fails, the worker never begins
  parsing: it reads nothing, hands nothing to the callback and clears \<open>running_\<close>.
  \<open>running()\<close> is true from \<open>start()\<close> until then and false afterwards, and a \<open>stop()\<close>
  after that joins a worker that has already returned (or, called before the return,
  one that is about to return).
\<close>

theorem connect_failure_ends_worker:
  "loop cb framing None r = (False, []) \<and>
   running (start new_source) \<and>
   \<not> running (worker_clear (start new_source)) \<and>
   \<not> running (worker_return (worker_clear (start new_source))) \<and>
   stop (worker_return (worker_clear (start new_source))) =
     \<lparr>m_running = False, m_thread = NotAThread, spawned = 1, workers = 0, terminated = False\<rparr> \<and>
   stop (worker_clear (start new_source)) =
     \<lparr>m_running = False, m_thread = NotAThread, spawned = 1, workers = 0, terminated = False\<rparr>"
  by (simp add: loop_def running_def start_def worker_clear_def worker_return_def stop_def
      new_source_def)

theorem connect_failure_ends_worker_witness:
  "loop True AnnexB None True = (False, []) \<and>
   running (start new_source) \<and>
   \<not> running (worker_clear (start new_source)) \<and>
   run [Start, WorkerClear, WorkerReturn, Stop] new_source =
     \<lparr>m_running = False, m_thread = NotAThread, spawned = 1, workers = 0, terminated = False\<rparr>"
  using connect_failure_ends_worker [of True AnnexB True]
  by (simp add: run_def)

subsection \<open>C9: \<open>start\<close> on a running instance\<close>




subsection \<open>C10: adjacent start codes\<close>

text \<open>
  Claim C10. In Annex-B mode, when the start code found next begins exactly where the
  current one ends, the iteration calls the closure not at all: the captured state is
  unchanged (nothing appended, nothing emitted) and the scan goes on at the second start
  code. No NAL handed to the closure is ever empty, so a bare start code is never
  appended.
\<close>

theorem adjacent_start_codes_yield_no_nal:
  "findStartCode buf pos = Some sc \<Longrightarrow> \<not> (pos = 0 \<and> 0 < sc_offset sc) \<Longrightarrow>
   findStartCode buf (sc_offset sc + sc_size sc) = Some next_sc \<Longrightarrow>
   sc_offset next_sc = sc_offset sc + sc_size sc \<Longrightarrow>
   annexb_parse emit buf pos a = annexb_parse emit buf (sc_offset next_sc) a \<and>
   [] \<notin> set (annexb_nals bytes)"
  by (simp add: annexb_parse_nal nal_step_def annexb_nals_nonempty)

theorem adjacent_start_codes_yield_no_nal_witness:
  "findStartCode [0, 0, 1, 0, 0, 0, 1, 0x65, 0x88, 0, 0, 1, 9] 0 = Some \<lparr>sc_offset = 0, sc_size = 3\<rparr> \<and>
   findStartCode [0, 0, 1, 0, 0, 0, 1, 0x65, 0x88, 0, 0, 1, 9] 3 = Some \<lparr>sc_offset = 3, sc_size = 4\<rparr> \<and>
   annexb_parse (emit_access_unit True) [0, 0, 1, 0, 0, 0, 1, 0x65, 0x88, 0, 0, 1, 9] 0 assembler0 =
     annexb_parse (emit_access_unit True) [0, 0, 1, 0, 0, 0, 1, 0x65, 0x88, 0, 0, 1, 9] 3 assembler0 \<and>
   annexb_parse (emit_access_unit True) [0, 0, 1, 0, 0, 0, 1, 0x65, 0x88, 0, 0, 1, 9] 0 assembler0 =
     ([0, 0, 1, 0, 0, 0, 1, 0x65, 0x88, 0, 0, 1, 9], 9,
      \<lparr>access_unit = [], has_idr = False,
       delivered = [\<lparr>data = [0, 0, 0, 1, 0x65, 0x88], is_keyframe = True\<rparr>]\<rparr>)"
proof -
  let ?buf = "[0, 0, 1, 0, 0, 0, 1, 0x65, 0x88, 0, 0, 1, 9] :: byte list"
  have 1: "findStartCode ?buf 0 = Some \<lparr>sc_offset = 0, sc_size = 3\<rparr>"
    by code_simp
  have 2: "findStartCode ?buf 3 = Some \<lparr>sc_offset = 3, sc_size = 4\<rparr>"
    by code_simp
  have 3: "annexb_parse (emit_access_unit True) ?buf 0 assembler0 =
     (?buf, 9, \<lparr>access_unit = [], has_idr = False,
       delivered = [\<lparr>data = [0, 0, 0, 1, 0x65, 0x88], is_keyframe = True\<rparr>]\<rparr>)"
    by code_simp
  have "annexb_parse (emit_access_unit True) ?buf 0 assembler0 =
      annexb_parse (emit_access_unit True) ?buf 3 assembler0"
    using adjacent_start_codes_yield_no_nal [of ?buf 0 "\<lparr>sc_offset = 0, sc_size = 3\<rparr>"
      "\<lparr>sc_offset = 3, sc_size = 4\<rparr>" "emit_access_unit True" assembler0] 1 2
    by simp
  with 1 2 3 show ?thesis
    by (intro conjI)
qed

end
